theory Spec2Isabelle
  imports Complex_Main "HOL-Library.AList"
begin

section \<open>Data sets\<close>

text \<open>
  A data set is what a data-source adapter hands to the graph view:
  \<^verbatim>\<open>{ nodes: { [id]: { label, parent? } }, edges: [ { source, target, label } ] }\<close>.
  The object \<open>nodes\<close> is kept as the list of its entries, in the order in which
  \<^verbatim>\<open>Object.entries\<close> enumerates them; an object has every key once, so the first
  components of a well-formed list are distinct (stated as a hypothesis where a proof needs it).
\<close>

record node =
  label :: string
  parent :: "string option"

record edge =
  source :: string
  target :: string
  edge_label :: string

record dataSet =
  nodes :: "(string \<times> node) list"
  edges :: "edge list"

text \<open>
  JavaScript truthiness of an optional string: \<^verbatim>\<open>undefined\<close> and the empty string
  are falsy. The source tests \<^verbatim>\<open>while (parentId)\<close> and \<^verbatim>\<open>if (node.parent)\<close>.
\<close>

definition truthy :: "string option \<Rightarrow> bool" where
  "truthy s = (case s of None \<Rightarrow> False | Some x \<Rightarrow> x \<noteq> [])"

text \<open>
  \<^verbatim>\<open>dataSet.nodes\<close> and the reducer state of the storage cache are plain objects. A
  property read \<^verbatim>\<open>obj[key]\<close> yields the entry of the key if the object has one, and
  otherwise what the object inherits under that name from \<^verbatim>\<open>Object.prototype\<close>.
  These are the names \<^verbatim>\<open>Object.prototype\<close> has; under each of them it holds a
  function, under \<^verbatim>\<open>__proto__\<close> an object, and none of these values is null or
  undefined or has a property \<^verbatim>\<open>parent\<close>.
\<close>

definition objectPrototypeNames :: "string list" where
  "objectPrototypeNames =
     [''constructor'', ''hasOwnProperty'', ''isPrototypeOf'', ''propertyIsEnumerable'',
      ''toLocaleString'', ''toString'', ''valueOf'', ''__proto__'', ''__defineGetter__'',
      ''__defineSetter__'', ''__lookupGetter__'', ''__lookupSetter__'']"

section \<open>Parent-chain depth\<close>

text \<open>
  The loop of \<^verbatim>\<open>applyToCytoscape\<close> that computes the depth of one node:
  \<^verbatim>\<open>
  let depth = 0
  let parentId = node.parent
  while (parentId) {
    const parent = dataSet.nodes[parentId]
    if (!parent) break
    depth++
    parentId = parent.parent
  }
  \<close>
  The loop has no bound, so it is a partial function: \<open>None\<close> is "does not return".
  When \<open>parentId\<close> has no entry but is a name inherited from \<^verbatim>\<open>Object.prototype\<close>,
  \<open>parent\<close> is the inherited value: it is truthy, so the depth is incremented, and its
  \<^verbatim>\<open>parent\<close> is undefined, so the loop ends after that round.
\<close>

partial_function (option) depthWalk ::
  "(string \<times> node) list \<Rightarrow> string option \<Rightarrow> nat \<Rightarrow> nat option" where
  "depthWalk ns parentId depth =
     (if truthy parentId then
        (case map_of ns (the parentId) of
           None \<Rightarrow>
             if the parentId \<in> set objectPrototypeNames then Some (depth + 1) else Some depth
         | Some p \<Rightarrow> depthWalk ns (parent p) (depth + 1))
      else Some depth)"

declare depthWalk.simps [code]

text \<open>
  The \<^verbatim>\<open>reduce\<close> over \<^verbatim>\<open>Object.entries(dataSet.nodes)\<close>: every entry is pushed with
  its depth, in entry order. It returns only if every walk returns.
\<close>

fun nodesWithDepthFrom ::
  "(string \<times> node) list \<Rightarrow> (string \<times> node) list \<Rightarrow> (string \<times> node \<times> nat) list
     \<Rightarrow> (string \<times> node \<times> nat) list option" where
  "nodesWithDepthFrom ns [] arr = Some arr"
| "nodesWithDepthFrom ns ((i, n) # rest) arr =
     (case depthWalk ns (parent n) 0 of
        None \<Rightarrow> None
      | Some depth \<Rightarrow> nodesWithDepthFrom ns rest (arr @ [(i, n, depth)]))"

definition nodesWithDepth :: "dataSet \<Rightarrow> (string \<times> node \<times> nat) list option" where
  "nodesWithDepth ds = nodesWithDepthFrom (nodes ds) (nodes ds) []"



definition parentEdges :: "(string \<times> node) list \<Rightarrow> (string \<times> string) list" where
  "parentEdges ns =
     [(i, p). (i, n) \<leftarrow> ns, p \<leftarrow> (case parent n of None \<Rightarrow> [] | Some p \<Rightarrow> [p]),
              p \<noteq> [], map_of ns p \<noteq> None]"

section \<open>The live graph model\<close>

text \<open>
  The rendering engine is an external library; the program uses its primitives
  \<^verbatim>\<open>startBatch\<close>, \<^verbatim>\<open>endBatch\<close>, \<^verbatim>\<open>elements().remove()\<close> and \<^verbatim>\<open>add\<close>.
  Modelled from the spec: the live model is the sequence of element records
  \<^verbatim>\<open>{ id, label, parent?, source?, target? }\<close> in insertion order; \<open>parent\<close> is fixed
  when the element is created, and an element whose parent identifier is not yet a node
  of the model is created without parent (the comment above the node loop of
  \<^verbatim>\<open>applyToCytoscape\<close> says the same). An element with both \<open>source\<close> and
  \<open>target\<close> is an edge, every other element is a node. Each element also carries the
  view attributes that a view state captures. \<open>batchCount\<close> is the number of open
  batches; \<open>endBatchCalls\<close> counts the calls of \<^verbatim>\<open>endBatch\<close>.
\<close>

record elementData =
  data_id :: string
  data_label :: string
  data_parent :: "string option"
  data_source :: "string option"
  data_target :: "string option"

type_synonym position = "real \<times> real"

record element =
  data :: elementData
  position :: position
  selected :: bool
  collapsed :: bool

record cy =
  elements :: "element list"
  batchCount :: nat
  endBatchCalls :: nat
  pan :: position
  zoom :: real
  autolock :: bool

datatype exn = Error string

definition isNode :: "element \<Rightarrow> bool" where
  "isNode e = (data_source (data e) = None \<or> data_target (data e) = None)"

definition nodeOrder :: "cy \<Rightarrow> string list" where
  "nodeOrder c = map (\<lambda>e. data_id (data e)) (filter isNode (elements c))"

definition startBatch :: "cy \<Rightarrow> cy" where
  "startBatch c = c\<lparr>batchCount := batchCount c + 1\<rparr>"

definition endBatch :: "cy \<Rightarrow> cy" where
  "endBatch c = c\<lparr>batchCount := batchCount c - 1, endBatchCalls := endBatchCalls c + 1\<rparr>"

definition removeElements :: "cy \<Rightarrow> cy" where
  "removeElements c = c\<lparr>elements := []\<rparr>"

text \<open>
  \<^verbatim>\<open>cy.add\<close> validates the element before it creates it and throws when it refuses
  it; the model is then unchanged. The engine refuses an element whose identifier is the
  empty string. What else it refuses (it may, for one, insist that identifiers are not
  used twice) is left open: \<open>refuses d c\<close> is the exception, if any, with which the
  engine refuses the data \<open>d\<close> when the model is \<open>c\<close>. Everything below is stated for
  an arbitrary \<open>refuses\<close>.
\<close>

type_synonym engine = "elementData \<Rightarrow> cy \<Rightarrow> exn option"

definition add :: "engine \<Rightarrow> elementData \<Rightarrow> cy \<Rightarrow> exn + cy" where
  "add refuses d c =
     (if data_id d = [] then Inl (Error ''Can not create element with invalid string ID'')
      else
        (case refuses d c of
           Some e \<Rightarrow> Inl e
         | None \<Rightarrow>
             (let d' = (case data_parent d of
                          None \<Rightarrow> d
                        | Some p \<Rightarrow>
                            if p \<in> set (nodeOrder c) then d else d\<lparr>data_parent := None\<rparr>)
              in Inr (c\<lparr>elements := elements c @
                        [\<lparr>data = d', position = (0, 0), selected = False,
                          collapsed = False\<rparr>]\<rparr>))))"

section \<open>View state\<close>

text \<open>
  \<^verbatim>\<open>collectViewState\<close> and \<^verbatim>\<open>applyViewState\<close> come from the hook \<^verbatim>\<open>useViewState(cy)\<close>
  of another module; \<^verbatim>\<open>applyToCytoscape\<close> receives them as values, and so does its
  model below. Either may throw: collecting is a read that yields a view state or an
  exception, applying yields the changed model and possibly an exception.
\<close>

record viewState =
  positions :: "(string \<times> position) list"
  camera :: "(position \<times> real) option"
  selectedIds :: "string list"
  collapsedIds :: "string list"
  locked :: bool

text \<open>
  Modelled from the spec: the view-state store of section 4.3, whose source is not part
  of the files at hand. \<open>collectViewState\<close> reads the position of every node, the
  camera, the selected elements, the collapsed nodes and the lock flag.
  \<open>applyViewState\<close> sets the position of every node that has an entry in
  \<open>positions\<close>, the camera if one is given, the selection and the collapsed state as
  given (identifiers that are not in the model are skipped) and the lock flag.
  Neither throws.
\<close>

definition collectViewState :: "cy \<Rightarrow> exn + viewState" where
  "collectViewState c = Inr
     \<lparr>positions = [(data_id (data e), position e). e \<leftarrow> elements c, isNode e],
      camera = Some (pan c, zoom c),
      selectedIds = [data_id (data e). e \<leftarrow> elements c, selected e],
      collapsedIds = [data_id (data e). e \<leftarrow> elements c, isNode e, collapsed e],
      locked = autolock c\<rparr>"

definition applyToElement :: "viewState \<Rightarrow> element \<Rightarrow> element" where
  "applyToElement vs e =
     e\<lparr>position := (if isNode e
                      then (case map_of (positions vs) (data_id (data e)) of
                              None \<Rightarrow> position e
                            | Some p \<Rightarrow> p)
                      else position e),
       selected := (data_id (data e) \<in> set (selectedIds vs)),
       collapsed := (isNode e \<and> data_id (data e) \<in> set (collapsedIds vs))\<rparr>"

definition applyViewState :: "viewState \<Rightarrow> cy \<Rightarrow> exn option \<times> cy" where
  "applyViewState vs c =
     (None,
      c\<lparr>elements := map (applyToElement vs) (elements c),
        pan := (case camera vs of None \<Rightarrow> pan c | Some (p, z) \<Rightarrow> p),
        zoom := (case camera vs of None \<Rightarrow> zoom c | Some (p, z) \<Rightarrow> z),
        autolock := locked vs\<rparr>)"

section \<open>Synchronizing the live model with a data set\<close>

text \<open>
  The element data that the three calls of \<^verbatim>\<open>cy.add\<close> build: for the placeholder of
  an identifier (\<^verbatim>\<open>{ id, label }\<close> with \<^verbatim>\<open>label = id\<close>), for a node of the data set
  (\<^verbatim>\<open>{ id, label, parent }\<close>) and for an edge (\<^verbatim>\<open>{ id, source, target, label }\<close>).
\<close>

definition placeholder :: "string \<Rightarrow> elementData" where
  "placeholder i =
     \<lparr>data_id = i, data_label = i, data_parent = None, data_source = None, data_target = None\<rparr>"

definition nodeData :: "string \<Rightarrow> node \<Rightarrow> elementData" where
  "nodeData i n = \<lparr>data_id = i, data_label = label n, data_parent = parent n,
                   data_source = None, data_target = None\<rparr>"

definition edgeData :: "string \<Rightarrow> edge \<Rightarrow> elementData" where
  "edgeData i e = \<lparr>data_id = i, data_label = edge_label e, data_parent = None,
                   data_source = Some (source e), data_target = Some (target e)\<rparr>"

text \<open>
  \<^verbatim>\<open>ensureNodeExists\<close> closes over the set \<^verbatim>\<open>nodeIds\<close> and the engine; both are
  threaded here as a pair. An exception leaves the \<^verbatim>\<open>try\<close> block at once, so a step
  that throws yields the exception together with the engine as it is then
  (\<open>Inl\<close>), and the steps after it do not run.
\<close>

type_synonym 'a attempt = "(exn \<times> cy) + 'a"

definition ensureNodeExists :: "engine \<Rightarrow> string \<Rightarrow> string set \<times> cy \<Rightarrow> (string set \<times> cy) attempt" where
  "ensureNodeExists refuses i s =
     (case s of (nodeIds, c) \<Rightarrow>
        if i \<in> nodeIds then Inr (nodeIds, c)
        else (case add refuses (placeholder i) c of
                Inl e \<Rightarrow> Inl (e, c)
              | Inr c' \<Rightarrow> Inr (insert i nodeIds, c')))"

text \<open>The loop over the sorted \<^verbatim>\<open>nodesWithDepth\<close>.\<close>

fun addNodes ::
  "engine \<Rightarrow> (string \<times> node \<times> nat) list \<Rightarrow> string set \<times> cy \<Rightarrow> (string set \<times> cy) attempt" where
  "addNodes refuses [] s = Inr s"
| "addNodes refuses ((i, n, depth) # rest) s =
     (case (if truthy (parent n) then ensureNodeExists refuses (the (parent n)) s else Inr s) of
        Inl x \<Rightarrow> Inl x
      | Inr s1 \<Rightarrow>
          (case add refuses (nodeData i n) (snd s1) of
             Inl e \<Rightarrow> Inl (e, snd s1)
           | Inr c' \<Rightarrow> addNodes refuses rest (fst s1, c')))"

text \<open>
  The loop over \<^verbatim>\<open>dataSet.edges\<close>. \<^verbatim>\<open>UUID.v4()\<close> is random; \<open>uuid k\<close> stands for the
  identifier generated for the \<open>k\<close>-th edge.
\<close>

fun addEdges ::
  "engine \<Rightarrow> (nat \<Rightarrow> string) \<Rightarrow> nat \<Rightarrow> edge list \<Rightarrow> string set \<times> cy \<Rightarrow> (string set \<times> cy) attempt" where
  "addEdges refuses uuid k [] s = Inr s"
| "addEdges refuses uuid k (e # rest) s =
     (case ensureNodeExists refuses (source e) s of
        Inl x \<Rightarrow> Inl x
      | Inr s1 \<Rightarrow>
          (case ensureNodeExists refuses (target e) s1 of
             Inl x \<Rightarrow> Inl x
           | Inr s2 \<Rightarrow>
               (case add refuses (edgeData (uuid k) e) (snd s2) of
                  Inl x \<Rightarrow> Inl (x, snd s2)
                | Inr c' \<Rightarrow> addEdges refuses uuid (k + 1) rest (fst s2, c'))))"

text \<open>
  Lines 75 to 124 of \<^verbatim>\<open>applyToCytoscape\<close>: remove every element, compute the depths,
  sort by depth (\<^verbatim>\<open>Array.prototype.sort\<close> is stable, and so is \<open>sort_key\<close>), add the
  nodes, add the edges. The result is \<open>None\<close> when the depth computation does not
  return, and otherwise the rebuilt engine or the exception of the \<^verbatim>\<open>add\<close> that threw.
\<close>

definition rebuild :: "engine \<Rightarrow> (nat \<Rightarrow> string) \<Rightarrow> dataSet \<Rightarrow> cy \<Rightarrow> cy attempt option" where
  "rebuild refuses uuid ds c =
     (let c1 = removeElements c;
          nodeIds = set (map fst (nodes ds))
      in case nodesWithDepth ds of
           None \<Rightarrow> None
         | Some nwd \<Rightarrow>
             Some (case addNodes refuses (sort_key (\<lambda>(i, n, depth). depth) nwd) (nodeIds, c1) of
                     Inl x \<Rightarrow> Inl x
                   | Inr sN \<Rightarrow>
                       (case addEdges refuses uuid 0 (edges ds) sN of
                          Inl x \<Rightarrow> Inl x
                        | Inr sE \<Rightarrow> Inr (snd sE))))"

text \<open>
  The whole callback. The result is \<open>None\<close> when the call does not return, and otherwise
  the exception thrown, if any, and the engine afterwards. The \<^verbatim>\<open>finally\<close> block runs
  on every exit of the \<^verbatim>\<open>try\<close> block.
\<close>

definition applyToCytoscape ::
  "engine \<Rightarrow> (cy \<Rightarrow> exn + 'vs) \<Rightarrow> ('vs \<Rightarrow> cy \<Rightarrow> exn option \<times> cy) \<Rightarrow> (nat \<Rightarrow> string)
     \<Rightarrow> cy option \<Rightarrow> dataSet \<Rightarrow> 'vs \<Rightarrow> (exn option \<times> cy option) option" where
  "applyToCytoscape refuses collect apply uuid cyOpt ds vs =
     (case cyOpt of
        None \<Rightarrow> Some (None, None)
      | Some c0 \<Rightarrow>
          map_option (\<lambda>(r, c). (r, Some (endBatch c)))
            (let c1 = startBatch c0 in
             case collect c1 of
               Inl e \<Rightarrow> Some (Some e, c1)
             | Inr viewStateBeforeQuery \<Rightarrow>
                 (case rebuild refuses uuid ds c1 of
                    None \<Rightarrow> None
                  | Some (Inl (e, c)) \<Rightarrow> Some (Some e, c)
                  | Some (Inr c2) \<Rightarrow>
                      (case apply vs c2 of
                         (Some e, c3) \<Rightarrow> Some (Some e, c3)
                       | (None, c3) \<Rightarrow> Some (apply viewStateBeforeQuery c3)))))"

section \<open>Local storage with a shared cache\<close>

text \<open>
  \<^verbatim>\<open>StorageUtil\<close> of \<^verbatim>\<open>util.tsx\<close>. A value of the handler's type \<^verbatim>\<open>T\<close> may be
  \<^verbatim>\<open>null\<close> or \<^verbatim>\<open>undefined\<close>, where \<^verbatim>\<open>T\<close> admits them. The cache is the reducer state
  shared through \<^verbatim>\<open>LocalStorageContext\<close>, a plain object from storage key to cached
  value; the hook is taken to be used below \<^verbatim>\<open>LocalStorageContextProvider\<close>, so that
  \<^verbatim>\<open>dispatch\<close> reaches the reducer. The read \<^verbatim>\<open>dataSet[handler.storageKey]\<close> of a key
  without entry yields \<^verbatim>\<open>undefined\<close>, or the inherited property when the key is a name
  of \<^verbatim>\<open>Object.prototype\<close>: \<open>Inherited k\<close> stands for that property, which the source
  casts to \<^verbatim>\<open>T\<close>.
\<close>

datatype 'a jsValue = Undefined | Null | Inherited string | Value 'a

definition nullish :: "'a jsValue \<Rightarrow> bool" where
  "nullish v = (case v of Undefined \<Rightarrow> True | Null \<Rightarrow> True | _ \<Rightarrow> False)"

text \<open>
  A handler names a storage key and gives the serializer, the deserializer (whose result
  is \<^verbatim>\<open>{ ok: true, obj } | { ok: false }\<close>) and the default value. The three are
  functions that the hook calls outside any \<^verbatim>\<open>try\<close> block; each may throw instead of
  returning.
\<close>

datatype 'a deserializeResult = Ok 'a | NotOk

record 'a localStorageHandler =
  storageKey :: string
  serialize :: "'a jsValue \<Rightarrow> exn + string"
  deserialize :: "string \<Rightarrow> exn + 'a jsValue deserializeResult"
  defaultValue :: "unit \<Rightarrow> exn + 'a jsValue"

text \<open>
  The state is the browser's \<^verbatim>\<open>localStorage\<close>, the cache and the console, to which
  warnings are written. \<^verbatim>\<open>localStorage.setItem\<close> throws when the store does not take
  the value (its quota is exceeded): \<open>quotaExceeded key value\<close> says when.
\<close>

record 'a storageState =
  localStorage :: "string \<rightharpoonup> string"
  quotaExceeded :: "string \<Rightarrow> string \<Rightarrow> bool"
  cacheState :: "string \<rightharpoonup> 'a jsValue"
  console :: "string list"

text \<open>The reducer action \<^verbatim>\<open>cache: (key, value) => ({ ...state, [key]: value })\<close>.\<close>

definition cache :: "string \<Rightarrow> 'a jsValue \<Rightarrow> (string \<rightharpoonup> 'a jsValue) \<Rightarrow> (string \<rightharpoonup> 'a jsValue)" where
  "cache key v state = state(key \<mapsto> v)"

text \<open>The read \<^verbatim>\<open>dataSet[handler.storageKey]\<close>.\<close>

definition cachedData :: "(string \<rightharpoonup> 'a jsValue) \<Rightarrow> string \<Rightarrow> 'a jsValue" where
  "cachedData dataSet key =
     (case dataSet key of
        Some v \<Rightarrow> v
      | None \<Rightarrow> if key \<in> set objectPrototypeNames then Inherited key else Undefined)"

text \<open>The memoised \<^verbatim>\<open>data\<close>: \<^verbatim>\<open>cachedData ?? handler.defaultValue()\<close>.\<close>

definition data_of :: "'a localStorageHandler \<Rightarrow> (string \<rightharpoonup> 'a jsValue) \<Rightarrow> exn + 'a jsValue" where
  "data_of handler dataSet =
     (if nullish (cachedData dataSet (storageKey handler)) then defaultValue handler ()
      else Inr (cachedData dataSet (storageKey handler)))"

definition parseWarning :: "string \<Rightarrow> string" where
  "parseWarning key =
     ''Failuer to parse local storage value as '' @ [CHR 0x27] @ key @ [CHR 0x27] @ ''.''"

text \<open>
  The effect that loads the stored value into the cache; it runs when a component that
  uses the hook is mounted (and again whenever its \<^verbatim>\<open>handler\<close> changes). The result is
  the exception with which the effect ends, if any, and the state.
\<close>

definition loadEffect ::
  "'a localStorageHandler \<Rightarrow> 'a storageState \<Rightarrow> exn option \<times> 'a storageState" where
  "loadEffect handler st =
     (case localStorage st (storageKey handler) of
        None \<Rightarrow> (None, st)
      | Some serialized \<Rightarrow>
          (case deserialize handler serialized of
             Inl e \<Rightarrow> (Some e, st)
           | Inr NotOk \<Rightarrow>
               (None, st\<lparr>console := console st @ [parseWarning (storageKey handler)]\<rparr>)
           | Inr (Ok obj) \<Rightarrow>
               (None, st\<lparr>cacheState := cache (storageKey handler) obj (cacheState st)\<rparr>)))"

text \<open>
  Reading through the hook, for a component that is mounted in the state \<open>st\<close>: the
  first render computes \<^verbatim>\<open>data\<close> from the cache, then the effect runs, and \<^verbatim>\<open>data\<close> is
  what the cache gives as the effect left it. The read raises what the render or the
  effect raises.
\<close>

definition readThroughCache ::
  "'a localStorageHandler \<Rightarrow> 'a storageState \<Rightarrow> exn + ('a jsValue \<times> 'a storageState)" where
  "readThroughCache handler st =
     (case data_of handler (cacheState st) of
        Inl e \<Rightarrow> Inl e
      | Inr firstData \<Rightarrow>
          (case loadEffect handler st of
             (Some e, st') \<Rightarrow> Inl e
           | (None, st') \<Rightarrow>
               (case data_of handler (cacheState st') of
                  Inl e \<Rightarrow> Inl e
                | Inr d \<Rightarrow> Inr (d, st'))))"


section \<open>Building a forest from a flat list\<close>

text \<open>
  \<^verbatim>\<open>Tree.toTree\<close> of \<^verbatim>\<open>util.tsx\<close>, in the mode that is given \<^verbatim>\<open>getParent\<close>. The
  wrapper nodes are objects that refer to each other (\<^verbatim>\<open>parent\<close>, \<^verbatim>\<open>children\<close>) and are
  mutated in place, so they live in a store: the \<^verbatim>\<open>Map\<close> \<^verbatim>\<open>treeNodes\<close> itself, a list
  of entries in insertion order, and a reference to a wrapper node is its key. A key
  that is set twice keeps its place and takes the later value, as \<^verbatim>\<open>Map\<close> does.
  \<^verbatim>\<open>getAncestors\<close> follows the \<^verbatim>\<open>parent\<close> references without a bound.
\<close>

record 'a treeNode =
  item :: 'a
  children :: "string list"
  tn_parent :: "string option"
  depth :: int

type_synonym 'a treeStore = "(string \<times> 'a treeNode) list"

definition modify :: "string \<Rightarrow> ('a treeNode \<Rightarrow> 'a treeNode) \<Rightarrow> 'a treeStore \<Rightarrow> 'a treeStore" where
  "modify k f st = map (\<lambda>(k', n). if k' = k then (k', f n) else (k', n)) st"

definition newTreeNodes :: "('a \<Rightarrow> string) \<Rightarrow> 'a list \<Rightarrow> 'a treeStore" where
  "newTreeNodes getId items =
     fold (\<lambda>it m. AList.update (getId it) \<lparr>item = it, children = [], tn_parent = None, depth = - 1\<rparr> m)
       items []"

text \<open>
  One round of the first loop, for the entry with key \<open>k\<close> and item \<open>it\<close>:
  \<^verbatim>\<open>
  const parentId = fn.getParent(node[1].item)
  if (parentId == null) continue
  const parent = treeNodes.get(parentId)
  node[1].parent = parent
  parent?.children.push(node[1])
  \<close>
\<close>

definition wire :: "('a \<Rightarrow> string option) \<Rightarrow> string \<Rightarrow> 'a \<Rightarrow> 'a treeStore \<Rightarrow> 'a treeStore" where
  "wire getParent k it st =
     (case getParent it of
        None \<Rightarrow> st
      | Some parentId \<Rightarrow>
          (case map_of st parentId of
             None \<Rightarrow> modify k (\<lambda>n. n\<lparr>tn_parent := None\<rparr>) st
           | Some p \<Rightarrow>
               modify parentId (\<lambda>n. n\<lparr>children := children n @ [k]\<rparr>)
                 (modify k (\<lambda>n. n\<lparr>tn_parent := Some parentId\<rparr>) st)))"

definition wireAll :: "('a \<Rightarrow> string option) \<Rightarrow> 'a treeStore \<Rightarrow> 'a treeStore" where
  "wireAll getParent st0 = fold (\<lambda>(k, n). wire getParent k (item n)) st0 st0"

definition parentRef :: "'a treeStore \<Rightarrow> string \<Rightarrow> string option" where
  "parentRef st k = (case map_of st k of None \<Rightarrow> None | Some n \<Rightarrow> tn_parent n)"

text \<open>
  \<^verbatim>\<open>
  let parent = node.parent
  while (parent) { arr.push(parent); parent = parent.parent }
  return arr.reverse()
  \<close>
  The loop reads nothing of the store but the \<^verbatim>\<open>parent\<close> references, which it is given
  as the function \<open>parentOf\<close>.
\<close>

partial_function (option) ancestorsLoop ::
  "(string \<Rightarrow> string option) \<Rightarrow> string option \<Rightarrow> string list \<Rightarrow> string list option" where
  "ancestorsLoop parentOf p arr =
     (case p of
        None \<Rightarrow> Some arr
      | Some k \<Rightarrow> ancestorsLoop parentOf (parentOf k) (arr @ [k]))"

declare ancestorsLoop.simps [code]

definition getAncestors :: "'a treeStore \<Rightarrow> string \<Rightarrow> string list option" where
  "getAncestors st k = map_option rev (ancestorsLoop (parentRef st) (parentRef st k) [])"

definition getDepth :: "'a treeStore \<Rightarrow> string \<Rightarrow> int option" where
  "getDepth st k = map_option (\<lambda>as. int (length as)) (getAncestors st k)"

text \<open>The second loop: \<^verbatim>\<open>node[1].depth = getDepth(node[1])\<close> for every entry.\<close>

fun setDepths :: "string list \<Rightarrow> 'a treeStore \<Rightarrow> 'a treeStore option" where
  "setDepths [] st = Some st"
| "setDepths (k # ks) st =
     (case getDepth st k of
        None \<Rightarrow> None
      | Some d \<Rightarrow> setDepths ks (modify k (\<lambda>n. n\<lparr>depth := d\<rparr>) st))"

text \<open>
  The result is the array of the wrapper nodes of depth 0, given here by their keys,
  together with the store in which their \<open>children\<close> can be followed.
\<close>

definition toTree ::
  "'a list \<Rightarrow> ('a \<Rightarrow> string) \<Rightarrow> ('a \<Rightarrow> string option) \<Rightarrow> (string list \<times> 'a treeStore) option" where
  "toTree items getId getParent =
     (let treeNodes = wireAll getParent (newTreeNodes getId items)
      in case setDepths (map fst treeNodes) treeNodes of
           None \<Rightarrow> None
         | Some st \<Rightarrow> Some (map fst (filter (\<lambda>(k, n). depth n = 0) st), st))"

section \<open>Notions for the statements, and example data\<close>

text \<open>
  \<open>brokenChain\<close>: node A has parent B, node B has parent X, and X is not a node.
  \<open>selfParent\<close>: node A is its own parent. \<open>mutualParents\<close>: A and B are each
  other's parent. \<open>inheritedParent\<close>: node x names as its parent \<open>toString\<close>, which is
  not a node but a name of \<^verbatim>\<open>Object.prototype\<close>; node z has parent y. In
  \<open>emptyIdParent\<close> the node c names the empty string as its parent, and the empty
  string is the identifier of the second node.
\<close>

definition brokenChain :: dataSet where
  "brokenChain =
     \<lparr>nodes = [(''B'', \<lparr>label = ''B'', parent = Some ''X''\<rparr>),
               (''A'', \<lparr>label = ''A'', parent = Some ''B''\<rparr>)],
      edges = []\<rparr>"

definition selfParent :: dataSet where
  "selfParent = \<lparr>nodes = [(''A'', \<lparr>label = ''A'', parent = Some ''A''\<rparr>)], edges = []\<rparr>"

definition mutualParents :: dataSet where
  "mutualParents =
     \<lparr>nodes = [(''A'', \<lparr>label = ''A'', parent = Some ''B''\<rparr>),
               (''B'', \<lparr>label = ''B'', parent = Some ''A''\<rparr>)],
      edges = []\<rparr>"


definition emptyIdParent :: dataSet where
  "emptyIdParent =
     \<lparr>nodes = [(''c'', \<lparr>label = ''c'', parent = Some []\<rparr>),
               ([], \<lparr>label = ''root'', parent = None\<rparr>)],
      edges = []\<rparr>"

text \<open>
  What the statements below require of a view-state function that is passed in: that it
  neither adds, removes, reorders nor relabels elements, and that it neither starts nor
  ends a batch.
\<close>

definition isNodeData :: "elementData \<Rightarrow> bool" where
  "isNodeData d = (data_source d = None \<or> data_target d = None)"

definition keepsElementData :: "('vs \<Rightarrow> cy \<Rightarrow> exn option \<times> cy) \<Rightarrow> bool" where
  "keepsElementData apply \<longleftrightarrow>
     (\<forall>vs c. map data (elements (snd (apply vs c))) = map data (elements c))"

definition keepsBatch :: "('vs \<Rightarrow> cy \<Rightarrow> exn option \<times> cy) \<Rightarrow> bool" where
  "keepsBatch apply \<longleftrightarrow>
     (\<forall>vs c. batchCount (snd (apply vs c)) = batchCount c \<and>
             endBatchCalls (snd (apply vs c)) = endBatchCalls c)"

text \<open>
  \<open>noEmptyIds uuid ds\<close>: no identifier that the synchronization hands to the engine for
  an element of its own is the empty string, that is, no key of \<open>nodes\<close>, no endpoint
  of an edge and no generated edge identifier. \<open>before p i xs\<close>: the list \<open>xs\<close> has an
  occurrence of \<open>p\<close> that is followed, later, by an occurrence of \<open>i\<close>.
\<close>

definition noEmptyIds :: "(nat \<Rightarrow> string) \<Rightarrow> dataSet \<Rightarrow> bool" where
  "noEmptyIds uuid ds \<longleftrightarrow>
     [] \<notin> set (map fst (nodes ds)) \<and>
     [] \<notin> set (map source (edges ds)) \<and> [] \<notin> set (map target (edges ds)) \<and>
     [] \<notin> set (map uuid [0 ..< length (edges ds)])"


text \<open>
  When the engine has no reason to refuse. \<open>acceptable d c\<close>: the identifier of \<open>d\<close>
  is not empty and not the identifier of an element of \<open>c\<close>, and if \<open>d\<close> is an edge,
  its source and its target are nodes of \<open>c\<close>. \<open>refusesOnlyIllFormed\<close>: the engine
  accepts every acceptable element. \<open>referenced ds\<close>: the identifiers that occur in
  the data set, as keys, as parent references or as endpoints of edges.
  \<open>freshEdgeIds uuid ds\<close>: the identifiers generated for the edges are pairwise
  different and none of them occurs in the data set.
\<close>

definition elementIds :: "cy \<Rightarrow> string list" where
  "elementIds c = map (\<lambda>e. data_id (data e)) (elements c)"

definition acceptable :: "elementData \<Rightarrow> cy \<Rightarrow> bool" where
  "acceptable d c \<longleftrightarrow>
     data_id d \<noteq> [] \<and> data_id d \<notin> set (elementIds c) \<and>
     (isNodeData d \<or>
      the (data_source d) \<in> set (nodeOrder c) \<and> the (data_target d) \<in> set (nodeOrder c))"

definition refusesOnlyIllFormed :: "engine \<Rightarrow> bool" where
  "refusesOnlyIllFormed refuses \<longleftrightarrow> (\<forall>d c. acceptable d c \<longrightarrow> refuses d c = None)"

definition referenced :: "dataSet \<Rightarrow> string list" where
  "referenced ds =
     map fst (nodes ds) @
     map (\<lambda>(i, n). the (parent n)) (filter (\<lambda>(i, n). parent n \<noteq> None) (nodes ds)) @
     map source (edges ds) @ map target (edges ds)"

definition freshEdgeIds :: "(nat \<Rightarrow> string) \<Rightarrow> dataSet \<Rightarrow> bool" where
  "freshEdgeIds uuid ds \<longleftrightarrow>
     distinct (map uuid [0 ..< length (edges ds)]) \<and>
     set (map uuid [0 ..< length (edges ds)]) \<inter> set (referenced ds) = {}"


text \<open>
  An engine that refuses nothing but the empty identifier and one that refuses whatever
  is not acceptable, an engine without elements, an empty view state, a supply of edge
  identifiers, and a view-state function that throws. \<open>parentChild\<close> and
  \<open>unknownTarget\<close> are the two data sets of the scenarios.
\<close>

definition refusesNothing :: engine where
  "refusesNothing d c = None"

definition strictEngine :: engine where
  "strictEngine d c = (if acceptable d c then None else Some (Error ''Can not create element''))"

definition emptyCy :: cy where
  "emptyCy = \<lparr>elements = [], batchCount = 0, endBatchCalls = 0, pan = (0, 0), zoom = 1,
              autolock = False\<rparr>"

definition emptyViewState :: viewState where
  "emptyViewState = \<lparr>positions = [], camera = None, selectedIds = [], collapsedIds = [],
                      locked = False\<rparr>"

definition sampleUuid :: "nat \<Rightarrow> string" where
  "sampleUuid k = replicate (k + 1) CHR ''e''"

definition failingApply :: "viewState \<Rightarrow> cy \<Rightarrow> exn option \<times> cy" where
  "failingApply vs c = (Some (Error ''apply failed''), c)"

definition parentChild :: dataSet where
  "parentChild =
     \<lparr>nodes = [(''B'', \<lparr>label = ''B'', parent = Some ''A''\<rparr>),
               (''A'', \<lparr>label = ''A'', parent = None\<rparr>)],
      edges = [\<lparr>source = ''A'', target = ''B'', edge_label = ''e''\<rparr>]\<rparr>"

definition unknownTarget :: dataSet where
  "unknownTarget =
     \<lparr>nodes = [(''A'', \<lparr>label = ''A'', parent = None\<rparr>)],
      edges = [\<lparr>source = ''A'', target = ''Z'', edge_label = ''e''\<rparr>]\<rparr>"

text \<open>The live models to which the two scenarios synchronize.\<close>

definition parentChildResult :: cy where
  "parentChildResult =
     \<lparr>elements =
        [\<lparr>data = nodeData ''A'' \<lparr>label = ''A'', parent = None\<rparr>,
           position = (0, 0), selected = False, collapsed = False\<rparr>,
         \<lparr>data = nodeData ''B'' \<lparr>label = ''B'', parent = Some ''A''\<rparr>,
           position = (0, 0), selected = False, collapsed = False\<rparr>,
         \<lparr>data = edgeData ''e'' \<lparr>source = ''A'', target = ''B'', edge_label = ''e''\<rparr>,
           position = (0, 0), selected = False, collapsed = False\<rparr>],
      batchCount = 0, endBatchCalls = 1, pan = (0, 0), zoom = 1, autolock = False\<rparr>"

definition unknownTargetResult :: cy where
  "unknownTargetResult =
     \<lparr>elements =
        [\<lparr>data = nodeData ''A'' \<lparr>label = ''A'', parent = None\<rparr>,
           position = (0, 0), selected = False, collapsed = False\<rparr>,
         \<lparr>data = placeholder ''Z'',
           position = (0, 0), selected = False, collapsed = False\<rparr>,
         \<lparr>data = edgeData ''e'' \<lparr>source = ''A'', target = ''Z'', edge_label = ''e''\<rparr>,
           position = (0, 0), selected = False, collapsed = False\<rparr>],
      batchCount = 0, endBatchCalls = 1, pan = (0, 0), zoom = 1, autolock = False\<rparr>"

text \<open>
  The engine in the middle of the rebuild for \<open>emptyIdParent\<close>, when the node with the
  empty identifier is refused: the batch is open and node c has been added.
\<close>

definition refusedAt :: cy where
  "refusedAt =
     \<lparr>elements =
        [\<lparr>data = nodeData ''c'' \<lparr>label = ''c'', parent = None\<rparr>,
           position = (0, 0), selected = False, collapsed = False\<rparr>],
      batchCount = 1, endBatchCalls = 0, pan = (0, 0), zoom = 1, autolock = False\<rparr>"

text \<open>A state of the node loop in which A is known and nothing has been added.\<close>

definition knownA :: "string set \<times> cy" where
  "knownA = ({''A''}, emptyCy)"

text \<open>
  An engine that shows node A at position (5, 5), a loaded view state that places A at
  (1, 1) and B at (2, 2), and the live model to which \<open>parentChild\<close> synchronizes from
  there.
\<close>

definition movedCy :: cy where
  "movedCy =
     \<lparr>elements =
        [\<lparr>data = nodeData ''A'' \<lparr>label = ''A'', parent = None\<rparr>,
           position = (5, 5), selected = False, collapsed = False\<rparr>],
      batchCount = 0, endBatchCalls = 0, pan = (0, 0), zoom = 1, autolock = False\<rparr>"

definition loadedViewState :: viewState where
  "loadedViewState =
     \<lparr>positions = [(''A'', (1, 1)), (''B'', (2, 2))], camera = None, selectedIds = [],
      collapsedIds = [], locked = False\<rparr>"

definition movedResult :: cy where
  "movedResult =
     \<lparr>elements =
        [\<lparr>data = nodeData ''A'' \<lparr>label = ''A'', parent = None\<rparr>,
           position = (5, 5), selected = False, collapsed = False\<rparr>,
         \<lparr>data = nodeData ''B'' \<lparr>label = ''B'', parent = Some ''A''\<rparr>,
           position = (2, 2), selected = False, collapsed = False\<rparr>,
         \<lparr>data = edgeData ''e'' \<lparr>source = ''A'', target = ''B'', edge_label = ''e''\<rparr>,
           position = (0, 0), selected = False, collapsed = False\<rparr>],
      batchCount = 0, endBatchCalls = 1, pan = (0, 0), zoom = 1, autolock = False\<rparr>"

text \<open>
  Handlers for text values. \<open>textHandler\<close> stores the text as it is and its
  deserializer reports failure for the text \<open>bad\<close>. \<open>quotedHandler\<close> stores the text
  between double quotes and \<open>null\<close> as the word null; its deserializer throws on
  anything else, as \<^verbatim>\<open>JSON.parse\<close> does. The deserializer of \<open>markingHandler\<close> appends
  an exclamation mark to what was stored. \<open>toStringHandler\<close> is \<open>textHandler\<close>
  with the storage key \<open>toString\<close>. \<open>storageWith ls\<close> is the state with the
  stored bytes \<open>ls\<close>, room for more, an empty cache and an empty console.
\<close>

definition textHandler :: "string localStorageHandler" where
  "textHandler =
     \<lparr>storageKey = ''K'',
      serialize = (\<lambda>v. case v of Value s \<Rightarrow> Inr s | Null \<Rightarrow> Inr ''null'' | _ \<Rightarrow> Inr ''undefined''),
      deserialize = (\<lambda>s. if s = ''bad'' then Inr NotOk else Inr (Ok (Value s))),
      defaultValue = (\<lambda>_. Inr (Value ''default''))\<rparr>"

definition quotedHandler :: "string localStorageHandler" where
  "quotedHandler =
     \<lparr>storageKey = ''K'',
      serialize = (\<lambda>v. case v of Value s \<Rightarrow> Inr ([CHR 0x22] @ s @ [CHR 0x22]) | _ \<Rightarrow> Inr ''null''),
      deserialize = (\<lambda>s. if s = ''null'' then Inr (Ok Null)
                          else if 2 \<le> length s \<and> hd s = CHR 0x22 \<and> last s = CHR 0x22
                          then Inr (Ok (Value (butlast (tl s))))
                          else Inl (Error ''SyntaxError'')),
      defaultValue = (\<lambda>_. Inr (Value ''default''))\<rparr>"


definition toStringHandler :: "string localStorageHandler" where
  "toStringHandler = textHandler\<lparr>storageKey := ''toString''\<rparr>"

definition storageWith :: "(string \<rightharpoonup> string) \<Rightarrow> string storageState" where
  "storageWith ls =
     \<lparr>localStorage = ls, quotaExceeded = (\<lambda>key value. False), cacheState = Map.empty,
      console = []\<rparr>"

definition emptyStorage :: "string storageState" where
  "emptyStorage = storageWith Map.empty"

definition malformedStorage :: "string storageState" where
  "malformedStorage = storageWith [''K'' \<mapsto> ''{'']"

text \<open>
  The outcome of a read, without the state: the exception or the value of \<^verbatim>\<open>data\<close>.
\<close>

definition readValue :: "exn + ('a jsValue \<times> 'a storageState) \<Rightarrow> exn + 'a jsValue" where
  "readValue r = map_sum id fst r"

text \<open>
  Notions for the statements about \<open>toTree\<close>: the parent identifier of an item if it
  resolves through the lookup, and the pairs (identifier, parent identifier) of a list of
  items.
\<close>

definition resolveParent :: "('a \<Rightarrow> string option) \<Rightarrow> 'a treeStore \<Rightarrow> 'a \<Rightarrow> string option" where
  "resolveParent getParent st it =
     (case getParent it of
        None \<Rightarrow> None
      | Some parentId \<Rightarrow> if parentId \<in> set (map fst st) then Some parentId else None)"

definition itemParentEdges ::
  "('a \<Rightarrow> string) \<Rightarrow> ('a \<Rightarrow> string option) \<Rightarrow> 'a list \<Rightarrow> (string \<times> string) list" where
  "itemParentEdges getId getParent items =
     [(getId it, p). it \<leftarrow> items, p \<leftarrow> (case getParent it of None \<Rightarrow> [] | Some p \<Rightarrow> [p])]"

text \<open>The store after the first loop has handled the entries with keys in \<open>D\<close>.\<close>

definition wired :: "('a \<Rightarrow> string option) \<Rightarrow> 'a treeStore \<Rightarrow> string set \<Rightarrow> 'a treeStore \<Rightarrow> bool" where
  "wired getParent st0 D st \<longleftrightarrow>
     map fst st = map fst st0 \<and>
     (\<forall>k n0. map_of st0 k = Some n0 \<longrightarrow>
        (\<exists>n. map_of st k = Some n \<and> item n = item n0 \<and> depth n = depth n0 \<and>
             tn_parent n = (if k \<in> D then resolveParent getParent st0 (item n0) else None) \<and>
             set (children n) = {c \<in> D. \<exists>nc. map_of st0 c = Some nc \<and>
                                          resolveParent getParent st0 (item nc) = Some k}))"

text \<open>
  Items with an identifier and an optional parent identifier; the three items of the
  scenario and the store that \<open>toTree\<close> builds from them; an item that is its own
  parent.
\<close>

record flatItem =
  item_id :: string
  item_parent :: "string option"

definition exampleItems :: "flatItem list" where
  "exampleItems =
     [\<lparr>item_id = ''1'', item_parent = None\<rparr>,
      \<lparr>item_id = ''2'', item_parent = Some ''1''\<rparr>,
      \<lparr>item_id = ''3'', item_parent = Some ''9''\<rparr>]"

definition exampleForest :: "flatItem treeStore" where
  "exampleForest =
     [(''1'', \<lparr>item = \<lparr>item_id = ''1'', item_parent = None\<rparr>, children = [''2''],
               tn_parent = None, depth = 0\<rparr>),
      (''2'', \<lparr>item = \<lparr>item_id = ''2'', item_parent = Some ''1''\<rparr>, children = [],
               tn_parent = Some ''1'', depth = 1\<rparr>),
      (''3'', \<lparr>item = \<lparr>item_id = ''3'', item_parent = Some ''9''\<rparr>, children = [],
               tn_parent = None, depth = 0\<rparr>)]"

definition selfParentItems :: "flatItem list" where
  "selfParentItems = [\<lparr>item_id = ''1'', item_parent = Some ''1''\<rparr>]"

section \<open>The depth of a broken parent chain\<close>

lemma not_inherited_empty [simp]: "[] \<notin> set objectPrototypeNames"
  by (simp add: objectPrototypeNames_def)





section \<open>Termination of the depth walk\<close>

lemma depthWalk_terminates:
  assumes ac: "acyclic (set (parentEdges ns))"
  shows "\<exists>k. depthWalk ns pid d = Some k"
proof -
  have wf: "wf ((set (parentEdges ns))\<inverse>)"
    using ac by (simp add: finite_acyclic_wf_converse)
  have key: "\<forall>d. \<exists>k. depthWalk ns (Some c) d = Some k" for c
  proof (induction c rule: wf_induct_rule [OF wf])
    case (1 c)
    show ?case
    proof
      fix d
      show "\<exists>k. depthWalk ns (Some c) d = Some k"
      proof (cases "c \<noteq> [] \<and> map_of ns c \<noteq> None")
        case False
        then show ?thesis by (subst depthWalk.simps) (auto simp: truthy_def)
      next
        case True
        then obtain n where n: "c \<noteq> []" "map_of ns c = Some n" by auto
        have step: "depthWalk ns (Some c) d = depthWalk ns (parent n) (d + 1)"
          using n by (subst depthWalk.simps) (simp add: truthy_def)
        show ?thesis
        proof (cases "truthy (parent n) \<and> map_of ns (the (parent n)) \<noteq> None")
          case False
          then have "\<exists>k. depthWalk ns (parent n) (d + 1) = Some k"
            by (subst depthWalk.simps) auto
          with step show ?thesis by simp
        next
          case True
          then obtain p where p: "parent n = Some p" "p \<noteq> []" "map_of ns p \<noteq> None"
            by (auto simp: truthy_def split: option.splits)
          have "(c, n) \<in> set ns" using n(2) by (rule map_of_SomeD)
          with p have "(c, p) \<in> set (parentEdges ns)"
            by (force simp: parentEdges_def)
          then have "(p, c) \<in> (set (parentEdges ns))\<inverse>" by simp
          from 1 [OF this] step p(1) show ?thesis by simp
        qed
      qed
    qed
  qed
  show ?thesis
  proof (cases pid)
    case None
    then show ?thesis by (subst depthWalk.simps) (simp add: truthy_def)
  next
    case (Some c)
    with key show ?thesis by simp
  qed
qed

lemma nodesWithDepthFrom_terminates:
  assumes "acyclic (set (parentEdges ns))"
  shows "\<exists>nwd. nodesWithDepthFrom ns es arr = Some nwd"
proof (induction es arbitrary: arr)
  case Nil
  show ?case by simp
next
  case (Cons e es)
  obtain i n where e: "e = (i, n)" by (cases e)
  obtain k where "depthWalk ns (parent n) 0 = Some k"
    using depthWalk_terminates [OF assms] by blast
  with Cons e show ?case by simp
qed

lemma nodesWithDepth_terminates:
  "acyclic (set (parentEdges (nodes ds))) \<Longrightarrow> \<exists>nwd. nodesWithDepth ds = Some nwd"
  unfolding nodesWithDepth_def by (rule nodesWithDepthFrom_terminates)

lemma depthWalk_selfParent: "depthWalk (nodes selfParent) (Some ''A'') d = None"
proof (cases "depthWalk (nodes selfParent) (Some ''A'') d")
  case None
  then show ?thesis .
next
  case (Some y)
  have "\<not> (nodes selfParent = nodes selfParent \<and> Some ''A'' = Some ''A'')"
  proof (rule depthWalk.raw_induct
      [where P = "\<lambda>ns pid d y. \<not> (ns = nodes selfParent \<and> pid = Some ''A'')", OF _ Some],
      goal_cases)
    case (1 f ns' pid' d' y')
    show ?case
    proof
      assume a: "ns' = nodes selfParent \<and> pid' = Some ''A''"
      with 1(2) have "f ns' (Some ''A'') (d' + 1) = Some y'"
        by (simp add: selfParent_def truthy_def)
      from 1(1) [OF this] a show False by simp
    qed
  qed
  then show ?thesis by simp
qed

lemma nodesWithDepth_selfParent: "nodesWithDepth selfParent = None"
proof -
  have "depthWalk (nodes selfParent) (Some ''A'') 0 = None"
    by (rule depthWalk_selfParent)
  then show ?thesis by (simp add: nodesWithDepth_def selfParent_def)
qed

lemma depthWalk_mutualParents: "depthWalk (nodes mutualParents) (Some ''A'') d = None"
proof (cases "depthWalk (nodes mutualParents) (Some ''A'') d")
  case None
  then show ?thesis .
next
  case (Some y)
  have "\<not> (nodes mutualParents = nodes mutualParents \<and> (Some ''A'' = Some ''A'' \<or> Some ''A'' = Some ''B''))"
  proof (rule depthWalk.raw_induct
      [where P = "\<lambda>ns pid d y. \<not> (ns = nodes mutualParents \<and> (pid = Some ''A'' \<or> pid = Some ''B''))",
       OF _ Some], goal_cases)
    case (1 f ns' pid' d' y')
    show ?case
    proof
      assume a: "ns' = nodes mutualParents \<and> (pid' = Some ''A'' \<or> pid' = Some ''B'')"
      with 1(2) have "f ns' (Some ''B'') (d' + 1) = Some y' \<or> f ns' (Some ''A'') (d' + 1) = Some y'"
        by (auto simp: mutualParents_def truthy_def)
      then show False
      proof
        assume "f ns' (Some ''B'') (d' + 1) = Some y'"
        from 1(1) [OF this] a show False by simp
      next
        assume "f ns' (Some ''A'') (d' + 1) = Some y'"
        from 1(1) [OF this] a show False by simp
      qed
    qed
  qed
  then show ?thesis by simp
qed

lemma nodesWithDepth_mutualParents: "nodesWithDepth mutualParents = None"
proof -
  have "depthWalk (nodes mutualParents) (Some ''B'') 0 = depthWalk (nodes mutualParents) (Some ''A'') 1"
    by (subst depthWalk.simps) (simp add: mutualParents_def truthy_def)
  then have "depthWalk (nodes mutualParents) (Some ''B'') 0 = None"
    by (simp add: depthWalk_mutualParents)
  then show ?thesis by (simp add: nodesWithDepth_def mutualParents_def)
qed

text \<open>
  Claim C4: the depth computation returns for every data set whose parent references
  form no cycle, and it does not return for the data set whose node is its own parent,
  nor for the one whose two nodes are each other's parent.
\<close>

theorem depth_walk_termination:
  "(acyclic (set (parentEdges (nodes ds))) \<longrightarrow> (\<exists>nwd. nodesWithDepth ds = Some nwd)) \<and>
   \<not> acyclic (set (parentEdges (nodes selfParent))) \<and> nodesWithDepth selfParent = None \<and>
   \<not> acyclic (set (parentEdges (nodes mutualParents))) \<and> nodesWithDepth mutualParents = None"
proof (intro conjI impI)
  assume "acyclic (set (parentEdges (nodes ds)))"
  then show "\<exists>nwd. nodesWithDepth ds = Some nwd" by (rule nodesWithDepth_terminates)
next
  show "\<not> acyclic (set (parentEdges (nodes selfParent)))"
    by (simp add: selfParent_def parentEdges_def acyclic_insert)
next
  show "nodesWithDepth selfParent = None" by (rule nodesWithDepth_selfParent)
next
  have "(''A'', ''A'') \<in> (set (parentEdges (nodes mutualParents)))\<^sup>+"
    by (rule trancl_trans [of _ "''B''"]) (auto simp: mutualParents_def parentEdges_def)
  then show "\<not> acyclic (set (parentEdges (nodes mutualParents)))"
    by (auto simp: acyclic_def)
next
  show "nodesWithDepth mutualParents = None" by (rule nodesWithDepth_mutualParents)
qed

theorem depth_walk_termination_witness:
  "acyclic (set (parentEdges (nodes brokenChain))) \<and> (\<exists>nwd. nodesWithDepth brokenChain = Some nwd)"
proof -
  have h: "acyclic (set (parentEdges (nodes brokenChain)))"
    by (simp add: brokenChain_def parentEdges_def acyclic_insert wf_acyclic)
  with depth_walk_termination [of brokenChain] show ?thesis by blast
qed

section \<open>Reading and writing through the cache\<close>

lemma nullish_simps [simp]:
  "nullish Undefined" "nullish Null" "\<not> nullish (Inherited k)" "\<not> nullish (Value x)"
  by (simp_all add: nullish_def)

lemma cachedData_update [simp]: "cachedData (m(k \<mapsto> v)) k = v"
  by (simp add: cachedData_def)


lemma loadEffect_cases:
  "loadEffect h st =
     (case localStorage st (storageKey h) of
        None \<Rightarrow> (None, st)
      | Some bytes \<Rightarrow>
          (case deserialize h bytes of
             Inl e \<Rightarrow> (Some e, st)
           | Inr NotOk \<Rightarrow> (None, st\<lparr>console := console st @ [parseWarning (storageKey h)]\<rparr>)
           | Inr (Ok obj) \<Rightarrow> (None, st\<lparr>cacheState := (cacheState st)(storageKey h \<mapsto> obj)\<rparr>)))"
  by (simp add: loadEffect_def cache_def split: option.splits sum.splits deserializeResult.splits)

lemma loadEffect_absent:
  "localStorage st (storageKey h) = None \<Longrightarrow> loadEffect h st = (None, st)"
  by (simp add: loadEffect_cases)

lemma loadEffect_throws:
  "localStorage st (storageKey h) = Some bytes \<Longrightarrow> deserialize h bytes = Inl e \<Longrightarrow>
     loadEffect h st = (Some e, st)"
  by (simp add: loadEffect_cases)

lemma loadEffect_notOk:
  "localStorage st (storageKey h) = Some bytes \<Longrightarrow> deserialize h bytes = Inr NotOk \<Longrightarrow>
     loadEffect h st = (None, st\<lparr>console := console st @ [parseWarning (storageKey h)]\<rparr>)"
  by (simp add: loadEffect_cases)

lemma loadEffect_ok:
  "localStorage st (storageKey h) = Some bytes \<Longrightarrow> deserialize h bytes = Inr (Ok obj) \<Longrightarrow>
     loadEffect h st = (None, st\<lparr>cacheState := (cacheState st)(storageKey h \<mapsto> obj)\<rparr>)"
  by (simp add: loadEffect_cases)

lemma readThroughCache_throws:
  assumes "data_of h (cacheState st) = Inr d0" "loadEffect h st = (Some e, st')"
  shows "readThroughCache h st = Inl e"
  using assms by (simp add: readThroughCache_def)

lemma readThroughCache_returns:
  assumes "data_of h (cacheState st) = Inr d0" "loadEffect h st = (None, st')"
    "data_of h (cacheState st') = Inr d"
  shows "readThroughCache h st = Inr (d, st')"
  using assms by (simp add: readThroughCache_def)

text \<open>
  Claim C7, as stated, fails: the deserializer of \<open>quotedHandler\<close> throws on the stored
  bytes \<open>{\<close>, as \<^verbatim>\<open>JSON.parse\<close> does on malformed text, and the read of the key, which
  has no cache entry, raises that exception; the effect calls the deserializer outside
  any \<^verbatim>\<open>try\<close> block. And for the key \<open>toString\<close>, for which nothing is cached and
  nothing is stored, the read returns what the cache object inherits under that name, not
  the default value.
\<close>

theorem cache_read_fallback_counterexample:
  "cachedData (cacheState malformedStorage) (storageKey quotedHandler) = Undefined \<and>
   localStorage malformedStorage (storageKey quotedHandler) = Some ''{'' \<and>
   deserialize quotedHandler ''{'' = Inl (Error ''SyntaxError'') \<and>
   readThroughCache quotedHandler malformedStorage = Inl (Error ''SyntaxError'') \<and>
   cacheState emptyStorage (storageKey toStringHandler) = None \<and>
   localStorage emptyStorage (storageKey toStringHandler) = None \<and>
   defaultValue toStringHandler () = Inr (Value ''default'') \<and>
   readValue (readThroughCache toStringHandler emptyStorage) = Inr (Inherited ''toString'')"
  by (simp add: malformedStorage_def emptyStorage_def storageWith_def quotedHandler_def
      toStringHandler_def textHandler_def cachedData_def objectPrototypeNames_def
      readThroughCache_def readValue_def data_of_def loadEffect_def)

text \<open>
  Claim C7, amended: reading a key for which the cache yields \<^verbatim>\<open>undefined\<close> (it has no
  entry, and the key is not a name of \<^verbatim>\<open>Object.prototype\<close>) raises exactly when the
  handler's \<^verbatim>\<open>defaultValue\<close> throws or its deserializer throws on the stored bytes;
  neither is called inside a \<^verbatim>\<open>try\<close> block. When \<^verbatim>\<open>defaultValue\<close> returns: without
  stored bytes the read returns the default value and changes nothing; with stored bytes
  for which the deserializer reports failure it writes the warning to the console and
  returns the default value; with bytes that deserialize it caches the object and
  returns it, or the default value if the object is null or undefined; and when the
  deserializer throws, the read raises that exception, with no warning and no change of
  the cache. The effect changes the cache entry only when the bytes deserialize.
\<close>

theorem cache_read_fallback:
  assumes "cachedData (cacheState st) (storageKey h) = Undefined"
  shows "(\<forall>e. defaultValue h () = Inl e \<longrightarrow> readThroughCache h st = Inl e) \<and>
         (\<forall>dflt. defaultValue h () = Inr dflt \<longrightarrow>
            (localStorage st (storageKey h) = None \<longrightarrow>
               readThroughCache h st = Inr (dflt, st)) \<and>
            (\<forall>bytes. localStorage st (storageKey h) = Some bytes \<and>
                 deserialize h bytes = Inr NotOk \<longrightarrow>
               readThroughCache h st =
                 Inr (dflt, st\<lparr>console := console st @ [parseWarning (storageKey h)]\<rparr>)) \<and>
            (\<forall>bytes obj. localStorage st (storageKey h) = Some bytes \<and>
                 deserialize h bytes = Inr (Ok obj) \<longrightarrow>
               readThroughCache h st =
                 Inr (if nullish obj then dflt else obj,
                      st\<lparr>cacheState := (cacheState st)(storageKey h \<mapsto> obj)\<rparr>)) \<and>
            (\<forall>bytes e. localStorage st (storageKey h) = Some bytes \<and>
                 deserialize h bytes = Inl e \<longrightarrow>
               readThroughCache h st = Inl e \<and> loadEffect h st = (Some e, st))) \<and>
         (cacheState (snd (loadEffect h st)) \<noteq> cacheState st \<longrightarrow>
            (\<exists>bytes obj. localStorage st (storageKey h) = Some bytes \<and>
               deserialize h bytes = Inr (Ok obj) \<and>
               cacheState (snd (loadEffect h st)) = (cacheState st)(storageKey h \<mapsto> obj)))"
proof (intro conjI allI impI)
  fix e
  assume "defaultValue h () = Inl e"
  with assms show "readThroughCache h st = Inl e"
    by (simp add: readThroughCache_def data_of_def)
next
  fix dflt
  assume d: "defaultValue h () = Inr dflt"
  have d0: "data_of h (cacheState st) = Inr dflt"
    using assms d by (simp add: data_of_def)
  {
    assume "localStorage st (storageKey h) = None"
    then have "loadEffect h st = (None, st)" by (rule loadEffect_absent)
    from readThroughCache_returns [OF d0 this d0]
    show "readThroughCache h st = Inr (dflt, st)" .
  next
    fix bytes
    assume "localStorage st (storageKey h) = Some bytes \<and> deserialize h bytes = Inr NotOk"
    then have "loadEffect h st =
        (None, st\<lparr>console := console st @ [parseWarning (storageKey h)]\<rparr>)"
      by (simp add: loadEffect_notOk)
    moreover have "data_of h (cacheState (st\<lparr>console := console st @ [parseWarning (storageKey h)]\<rparr>)) =
        Inr dflt"
      using d0 by simp
    ultimately show "readThroughCache h st =
        Inr (dflt, st\<lparr>console := console st @ [parseWarning (storageKey h)]\<rparr>)"
      using readThroughCache_returns [OF d0] by blast
  next
    fix bytes obj
    assume "localStorage st (storageKey h) = Some bytes \<and> deserialize h bytes = Inr (Ok obj)"
    then have "loadEffect h st =
        (None, st\<lparr>cacheState := (cacheState st)(storageKey h \<mapsto> obj)\<rparr>)"
      by (simp add: loadEffect_ok)
    moreover have "data_of h (cacheState (st\<lparr>cacheState := (cacheState st)(storageKey h \<mapsto> obj)\<rparr>)) =
        Inr (if nullish obj then dflt else obj)"
      using d by (simp add: data_of_def)
    ultimately show "readThroughCache h st =
        Inr (if nullish obj then dflt else obj,
             st\<lparr>cacheState := (cacheState st)(storageKey h \<mapsto> obj)\<rparr>)"
      using readThroughCache_returns [OF d0] by blast
  next
    fix bytes e
    assume a: "localStorage st (storageKey h) = Some bytes \<and> deserialize h bytes = Inl e"
    then show "loadEffect h st = (Some e, st)" by (simp add: loadEffect_throws)
    then show "readThroughCache h st = Inl e" by (rule readThroughCache_throws [OF d0])
  }
next
  assume ne: "cacheState (snd (loadEffect h st)) \<noteq> cacheState st"
  show "\<exists>bytes obj. localStorage st (storageKey h) = Some bytes \<and>
      deserialize h bytes = Inr (Ok obj) \<and>
      cacheState (snd (loadEffect h st)) = (cacheState st)(storageKey h \<mapsto> obj)"
  proof (cases "localStorage st (storageKey h)")
    case None
    with ne show ?thesis by (simp add: loadEffect_absent)
  next
    case (Some bytes)
    show ?thesis
    proof (cases "deserialize h bytes")
      case (Inl e)
      with ne Some show ?thesis by (simp add: loadEffect_throws)
    next
      case (Inr r)
      show ?thesis
      proof (cases r)
        case NotOk
        with ne Some Inr show ?thesis by (simp add: loadEffect_notOk)
      next
        case (Ok obj)
        with Some Inr show ?thesis by (simp add: loadEffect_ok)
      qed
    qed
  qed
qed

theorem cache_read_fallback_witness:
  "cachedData (cacheState emptyStorage) (storageKey textHandler) = Undefined \<and>
   defaultValue textHandler () = Inr (Value ''default'') \<and>
   localStorage emptyStorage (storageKey textHandler) = None \<and>
   readThroughCache textHandler emptyStorage = Inr (Value ''default'', emptyStorage) \<and>
   localStorage (storageWith [''K'' \<mapsto> ''bad'']) (storageKey textHandler) = Some ''bad'' \<and>
   deserialize textHandler ''bad'' = Inr NotOk \<and>
   readThroughCache textHandler (storageWith [''K'' \<mapsto> ''bad'']) =
     Inr (Value ''default'', (storageWith [''K'' \<mapsto> ''bad''])\<lparr>console := [parseWarning ''K'']\<rparr>) \<and>
   localStorage (storageWith [''K'' \<mapsto> ''v1'']) (storageKey textHandler) = Some ''v1'' \<and>
   deserialize textHandler ''v1'' = Inr (Ok (Value ''v1'')) \<and>
   readThroughCache textHandler (storageWith [''K'' \<mapsto> ''v1'']) =
     Inr (Value ''v1'', (storageWith [''K'' \<mapsto> ''v1''])\<lparr>cacheState := [''K'' \<mapsto> Value ''v1'']\<rparr>) \<and>
   localStorage (storageWith [''K'' \<mapsto> ''null'']) (storageKey quotedHandler) = Some ''null'' \<and>
   deserialize quotedHandler ''null'' = Inr (Ok Null) \<and>
   readThroughCache quotedHandler (storageWith [''K'' \<mapsto> ''null'']) =
     Inr (Value ''default'', (storageWith [''K'' \<mapsto> ''null''])\<lparr>cacheState := [''K'' \<mapsto> Null]\<rparr>) \<and>
   localStorage malformedStorage (storageKey quotedHandler) = Some ''{'' \<and>
   deserialize quotedHandler ''{'' = Inl (Error ''SyntaxError'') \<and>
   readThroughCache quotedHandler malformedStorage = Inl (Error ''SyntaxError'')"
proof -
  have k: "storageKey textHandler = ''K''" "defaultValue textHandler () = Inr (Value ''default'')"
    "deserialize textHandler ''bad'' = Inr NotOk"
    "deserialize textHandler ''v1'' = Inr (Ok (Value ''v1''))"
    by (simp_all add: textHandler_def)
  have q: "storageKey quotedHandler = ''K''" "defaultValue quotedHandler () = Inr (Value ''default'')"
    "deserialize quotedHandler ''null'' = Inr (Ok Null)"
    "deserialize quotedHandler ''{'' = Inl (Error ''SyntaxError'')"
    by (simp_all add: quotedHandler_def)
  have s: "cacheState (storageWith ls) = Map.empty" "localStorage (storageWith ls) = ls"
    "console (storageWith ls) = []" for ls
    by (simp_all add: storageWith_def)
  have u: "cachedData Map.empty ''K'' = (Undefined :: string jsValue)"
    by (simp add: cachedData_def objectPrototypeNames_def)
  have e: "emptyStorage = storageWith Map.empty" "malformedStorage = storageWith [''K'' \<mapsto> ''{'']"
    by (simp_all add: emptyStorage_def malformedStorage_def)
  note a = cache_read_fallback [of "storageWith Map.empty" textHandler]
  note b = cache_read_fallback [of "storageWith [''K'' \<mapsto> ''bad'']" textHandler]
  note c = cache_read_fallback [of "storageWith [''K'' \<mapsto> ''v1'']" textHandler]
  note d = cache_read_fallback [of "storageWith [''K'' \<mapsto> ''null'']" quotedHandler]
  note f = cache_read_fallback [of "storageWith [''K'' \<mapsto> ''{'']" quotedHandler]
  from a b c d f show ?thesis by (simp add: k q s u e)
qed




section \<open>Invariants of the rebuild\<close>

lemma nodeOrder_data:
  "nodeOrder c = map data_id (filter isNodeData (map data (elements c)))"
proof -
  have "isNode = isNodeData \<circ> data"
    by (simp add: fun_eq_iff isNode_def isNodeData_def)
  then show ?thesis by (simp add: nodeOrder_def filter_map)
qed

lemma nodeOrder_cong:
  "map data (elements c) = map data (elements c') \<Longrightarrow> nodeOrder c = nodeOrder c'"
  by (simp add: nodeOrder_data)

lemma placeholder_simps [simp]:
  "isNodeData (placeholder i)" "data_id (placeholder i) = i"
  by (simp_all add: placeholder_def isNodeData_def)

lemma nodeData_simps [simp]:
  "isNodeData (nodeData i n)" "data_id (nodeData i n) = i"
  by (simp_all add: nodeData_def isNodeData_def)

lemma edgeData_simps [simp]:
  "\<not> isNodeData (edgeData i e)" "data_id (edgeData i e) = i"
  by (simp_all add: edgeData_def isNodeData_def)

text \<open>What a call of \<open>add\<close> that returns has done.\<close>

lemma add_Inr:
  assumes "add refuses d c = Inr c'"
  shows "data_id d \<noteq> []"
    and "nodeOrder c' = nodeOrder c @ (if isNodeData d then [data_id d] else [])"
    and "batchCount c' = batchCount c" and "endBatchCalls c' = endBatchCalls c"
  using assms
  by (auto simp: add_def Let_def nodeOrder_def isNode_def isNodeData_def
      split: if_splits option.splits)

lemma add_Inr_elements:
  assumes "add refuses d c = Inr c'"
  obtains d' where
    "elements c' = elements c @
       [\<lparr>data = d', position = (0, 0), selected = False, collapsed = False\<rparr>]"
    "data_id d' = data_id d" "isNodeData d' = isNodeData d" "data_parent d = None \<longrightarrow> d' = d"
proof -
  define d' where "d' = (case data_parent d of
                          None \<Rightarrow> d
                        | Some p \<Rightarrow>
                            if p \<in> set (nodeOrder c) then d else d\<lparr>data_parent := None\<rparr>)"
  from assms have "data_id d \<noteq> []" "refuses d c = None"
    by (auto simp: add_def split: if_splits option.splits)
  with assms have "c' = c\<lparr>elements := elements c @
       [\<lparr>data = d', position = (0, 0), selected = False, collapsed = False\<rparr>]\<rparr>"
    by (simp add: add_def Let_def d'_def)
  then have "elements c' = elements c @
       [\<lparr>data = d', position = (0, 0), selected = False, collapsed = False\<rparr>]"
    by simp
  moreover have "data_id d' = data_id d" "isNodeData d' = isNodeData d"
    by (simp_all add: d'_def isNodeData_def split: option.splits)
  moreover have "data_parent d = None \<longrightarrow> d' = d"
    by (simp add: d'_def)
  ultimately show ?thesis by (rule that)
qed

lemma add_accepts:
  assumes "data_id d \<noteq> []" "refuses d c = None"
  shows "\<exists>c'. add refuses d c = Inr c'"
  using assms by (simp add: add_def Let_def)

lemma add_empty_id:
  "data_id d = [] \<Longrightarrow>
     add refuses d c = Inl (Error ''Can not create element with invalid string ID'')"
  by (simp add: add_def)

lemma ensure_in: "i \<in> ids \<Longrightarrow> ensureNodeExists refuses i (ids, c) = Inr (ids, c)"
  by (simp add: ensureNodeExists_def)

lemma ensure_notin:
  "i \<notin> ids \<Longrightarrow>
     ensureNodeExists refuses i (ids, c) =
       (case add refuses (placeholder i) c of
          Inl e \<Rightarrow> Inl (e, c)
        | Inr c' \<Rightarrow> Inr (insert i ids, c'))"
  by (simp add: ensureNodeExists_def)

lemma ensure_Inr_cases:
  assumes "ensureNodeExists refuses i s = Inr s'"
  shows "(i \<in> fst s \<and> s' = s) \<or>
         (i \<notin> fst s \<and> (\<exists>c'. add refuses (placeholder i) (snd s) = Inr c' \<and>
                               s' = (insert i (fst s), c')))"
  using assms by (cases s) (auto simp: ensureNodeExists_def split: if_splits sum.splits)

lemma ensure_Inr:
  assumes "ensureNodeExists refuses i s = Inr s'"
  shows "fst s' = insert i (fst s)"
    and "nodeOrder (snd s') = nodeOrder (snd s) @ (if i \<in> fst s then [] else [i])"
    and "i \<notin> fst s \<Longrightarrow> i \<noteq> []"
  using ensure_Inr_cases [OF assms] by (auto dest: add_Inr(1,2))

text \<open>The first step of a round of the node loop.\<close>

lemma parentStep_Inr:
  assumes "(if truthy (parent n) then ensureNodeExists refuses (the (parent n)) s else Inr s) = Inr s1"
  shows "fst s1 = (if truthy (parent n) then insert (the (parent n)) (fst s) else fst s)"
    and "nodeOrder (snd s1) =
           nodeOrder (snd s) @
             (if truthy (parent n) \<and> the (parent n) \<notin> fst s then [the (parent n)] else [])"
  using assms by (auto split: if_splits dest: ensure_Inr(1,2))

lemma addNodes_Cons_Inr:
  assumes "addNodes refuses ((i, n, d) # rest) s = Inr s'"
  obtains s1 c' where
    "(if truthy (parent n) then ensureNodeExists refuses (the (parent n)) s else Inr s) = Inr s1"
    "add refuses (nodeData i n) (snd s1) = Inr c'"
    "addNodes refuses rest (fst s1, c') = Inr s'"
  using assms by (auto split: sum.splits)

lemma addEdges_Cons_Inr:
  assumes "addEdges refuses uuid k (e # rest) s = Inr s'"
  obtains s1 s2 c' where
    "ensureNodeExists refuses (source e) s = Inr s1"
    "ensureNodeExists refuses (target e) s1 = Inr s2"
    "add refuses (edgeData (uuid k) e) (snd s2) = Inr c'"
    "addEdges refuses uuid (k + 1) rest (fst s2, c') = Inr s'"
  using assms by (auto split: sum.splits)

text \<open>A property of the pair of known identifiers and engine that every step keeps.\<close>

lemma addNodes_preserves:
  assumes "addNodes refuses l s = Inr s'" and "Q s"
    and "\<And>p s s'. Q s \<Longrightarrow> ensureNodeExists refuses p s = Inr s' \<Longrightarrow> Q s'"
    and "\<And>i n d s c'. (i, n, d) \<in> set l \<Longrightarrow> Q s \<Longrightarrow>
           add refuses (nodeData i n) (snd s) = Inr c' \<Longrightarrow> Q (fst s, c')"
  shows "Q s'"
  using assms
proof (induction l arbitrary: s)
  case Nil
  then show ?case by simp
next
  case (Cons x rest)
  obtain i n d where x: "x = (i, n, d)" by (cases x)
  from Cons.prems(1) [unfolded x] obtain s1 c' where
    s1: "(if truthy (parent n) then ensureNodeExists refuses (the (parent n)) s else Inr s) = Inr s1"
    and c': "add refuses (nodeData i n) (snd s1) = Inr c'"
    and r: "addNodes refuses rest (fst s1, c') = Inr s'"
    by (rule addNodes_Cons_Inr)
  have q1: "Q s1"
  proof (cases "truthy (parent n)")
    case True
    with s1 have "ensureNodeExists refuses (the (parent n)) s = Inr s1" by simp
    from Cons.prems(3) [OF Cons.prems(2) this] show ?thesis .
  next
    case False
    with s1 Cons.prems(2) show ?thesis by simp
  qed
  have q2: "Q (fst s1, c')"
    using Cons.prems(4) [of i n d s1 c'] q1 c' by (simp add: x)
  show ?case
  proof (rule Cons.IH [OF r q2])
    show "Q s'" if "Q s" "ensureNodeExists refuses p s = Inr s'" for p s s'
      using that by (rule Cons.prems(3))
    show "Q (fst s, c')" if "(i, n, d) \<in> set rest" "Q s" "add refuses (nodeData i n) (snd s) = Inr c'"
      for i n d s c'
      using that Cons.prems(4) [of i n d s c'] by simp
  qed
qed

lemma addEdges_preserves:
  assumes "addEdges refuses uuid k es s = Inr s'" and "Q s"
    and "\<And>p s s'. Q s \<Longrightarrow> ensureNodeExists refuses p s = Inr s' \<Longrightarrow> Q s'"
    and "\<And>k e s c'. e \<in> set es \<Longrightarrow> Q s \<Longrightarrow>
           add refuses (edgeData (uuid k) e) (snd s) = Inr c' \<Longrightarrow> Q (fst s, c')"
  shows "Q s'"
  using assms
proof (induction es arbitrary: k s)
  case Nil
  then show ?case by simp
next
  case (Cons e rest)
  from Cons.prems(1) obtain s1 s2 c' where
    s1: "ensureNodeExists refuses (source e) s = Inr s1"
    and s2: "ensureNodeExists refuses (target e) s1 = Inr s2"
    and c': "add refuses (edgeData (uuid k) e) (snd s2) = Inr c'"
    and r: "addEdges refuses uuid (k + 1) rest (fst s2, c') = Inr s'"
    by (rule addEdges_Cons_Inr)
  have q2: "Q s2"
    using Cons.prems(3) [OF Cons.prems(3) [OF Cons.prems(2) s1] s2] .
  have q3: "Q (fst s2, c')"
    using Cons.prems(4) [of e s2 k c'] q2 c' by simp
  show ?case
  proof (rule Cons.IH [OF r q3])
    show "Q s'" if "Q s" "ensureNodeExists refuses p s = Inr s'" for p s s'
      using that by (rule Cons.prems(3))
    show "Q (fst s, c')" if "e \<in> set rest" "Q s" "add refuses (edgeData (uuid k) e) (snd s) = Inr c'"
      for k e s c'
      using that Cons.prems(4) [of e s k c'] by simp
  qed
qed

text \<open>
  A property of the engine that every \<open>add\<close> keeps holds of the engine after the loop,
  whether the loop has returned or thrown.
\<close>

lemma ensure_frame:
  assumes "P (snd s)" and "\<And>d c c'. P c \<Longrightarrow> add refuses d c = Inr c' \<Longrightarrow> P c'"
  shows "case ensureNodeExists refuses i s of Inl (e, c) \<Rightarrow> P c | Inr s' \<Rightarrow> P (snd s')"
  using assms
  by (cases s) (auto simp: ensureNodeExists_def split: sum.splits)

lemma addNodes_frame:
  assumes "P (snd s)" and "\<And>d c c'. P c \<Longrightarrow> add refuses d c = Inr c' \<Longrightarrow> P c'"
  shows "case addNodes refuses l s of Inl (e, c) \<Rightarrow> P c | Inr s' \<Rightarrow> P (snd s')"
  using assms(1)
proof (induction l arbitrary: s)
  case Nil
  then show ?case by simp
next
  case (Cons x rest)
  obtain i n d where x: "x = (i, n, d)" by (cases x)
  define r1 where "r1 = (if truthy (parent n) then ensureNodeExists refuses (the (parent n)) s else Inr s)"
  have f1: "case r1 of Inl (e, c) \<Rightarrow> P c | Inr s' \<Rightarrow> P (snd s')"
    unfolding r1_def using ensure_frame [of P s refuses "the (parent n)"] Cons.prems assms(2)
    by auto
  show ?case
  proof (cases r1)
    case (Inl y)
    with f1 show ?thesis unfolding x by (simp add: r1_def [symmetric])
  next
    case (Inr s1)
    with f1 have p1: "P (snd s1)" by simp
    show ?thesis
    proof (cases "add refuses (nodeData i n) (snd s1)")
      case (Inl e)
      with Inr p1 show ?thesis unfolding x by (simp add: r1_def [symmetric])
    next
      case (Inr c')
      with p1 assms(2) have "P c'" by blast
      then have "P (snd (fst s1, c'))" by simp
      from Cons.IH [OF this] Inr \<open>r1 = Inr s1\<close> show ?thesis
        unfolding x by (simp add: r1_def [symmetric])
    qed
  qed
qed

lemma addEdges_frame:
  assumes "P (snd s)" and "\<And>d c c'. P c \<Longrightarrow> add refuses d c = Inr c' \<Longrightarrow> P c'"
  shows "case addEdges refuses uuid k es s of Inl (e, c) \<Rightarrow> P c | Inr s' \<Rightarrow> P (snd s')"
  using assms(1)
proof (induction es arbitrary: k s)
  case Nil
  then show ?case by simp
next
  case (Cons x rest)
  have f1: "case ensureNodeExists refuses (source x) s of Inl (e, c) \<Rightarrow> P c | Inr s' \<Rightarrow> P (snd s')"
    using ensure_frame [of P s refuses "source x"] Cons.prems assms(2) by auto
  show ?case
  proof (cases "ensureNodeExists refuses (source x) s")
    case (Inl y)
    with f1 show ?thesis by simp
  next
    case (Inr s1)
    with f1 have p1: "P (snd s1)" by simp
    have f2: "case ensureNodeExists refuses (target x) s1 of Inl (e, c) \<Rightarrow> P c | Inr s' \<Rightarrow> P (snd s')"
      using ensure_frame [of P s1 refuses "target x"] p1 assms(2) by auto
    show ?thesis
    proof (cases "ensureNodeExists refuses (target x) s1")
      case (Inl y)
      with f2 \<open>ensureNodeExists refuses (source x) s = Inr s1\<close> show ?thesis by simp
    next
      case s2: (Inr s2)
      with f2 have p2: "P (snd s2)" by simp
      show ?thesis
      proof (cases "add refuses (edgeData (uuid k) x) (snd s2)")
        case (Inl e)
        with Inr s2 p2 show ?thesis by simp
      next
        case c': (Inr c')
        with p2 assms(2) have "P c'" by blast
        then have "P (snd (fst s2, c'))" by simp
        from Cons.IH [OF this] Inr s2 c' show ?thesis by simp
      qed
    qed
  qed
qed

lemma addNodes_inv:
  assumes "addNodes refuses l (ids, c) = Inr s'"
    and "ids = set (nodeOrder c) \<union> set (map fst l)" "distinct (nodeOrder c @ map fst l)"
  shows "fst s' = set (nodeOrder (snd s')) \<and> distinct (nodeOrder (snd s'))"
  using assms
proof (induction l arbitrary: ids c)
  case Nil
  then show ?case by auto
next
  case (Cons x rest)
  obtain i n d where x: "x = (i, n, d)" by (cases x)
  from Cons.prems(1) [unfolded x] obtain s1 c2 where
    s1: "(if truthy (parent n) then ensureNodeExists refuses (the (parent n)) (ids, c) else Inr (ids, c)) = Inr s1"
    and c2: "add refuses (nodeData i n) (snd s1) = Inr c2"
    and r: "addNodes refuses rest (fst s1, c2) = Inr s'"
    by (rule addNodes_Cons_Inr)
  note p = parentStep_Inr [OF s1, simplified]
  have o2: "nodeOrder c2 = nodeOrder (snd s1) @ [i]"
    using add_Inr(2) [OF c2] by simp
  have a: "fst s1 = set (nodeOrder c2) \<union> set (map fst rest)"
    using Cons.prems(2) unfolding o2 p x by auto
  have b: "distinct (nodeOrder c2 @ map fst rest)"
    using Cons.prems(2,3) unfolding o2 p x by auto
  from Cons.IH [OF r a b] show ?case .
qed

lemma addNodes_filter:
  assumes "addNodes refuses l (ids, c) = Inr s'"
    and "K \<subseteq> ids" "set (map fst l) \<subseteq> K"
  shows "filter (\<lambda>x. x \<in> K) (nodeOrder (snd s')) =
           filter (\<lambda>x. x \<in> K) (nodeOrder c) @ map fst l \<and>
         K \<subseteq> fst s'"
  using assms
proof (induction l arbitrary: ids c)
  case Nil
  then show ?case by auto
next
  case (Cons x rest)
  obtain i n d where x: "x = (i, n, d)" by (cases x)
  from Cons.prems(1) [unfolded x] obtain s1 c2 where
    s1: "(if truthy (parent n) then ensureNodeExists refuses (the (parent n)) (ids, c) else Inr (ids, c)) = Inr s1"
    and c2: "add refuses (nodeData i n) (snd s1) = Inr c2"
    and r: "addNodes refuses rest (fst s1, c2) = Inr s'"
    by (rule addNodes_Cons_Inr)
  note p = parentStep_Inr [OF s1, simplified]
  have o2: "nodeOrder c2 = nodeOrder (snd s1) @ [i]"
    using add_Inr(2) [OF c2] by simp
  have a: "K \<subseteq> fst s1"
    using Cons.prems(2) unfolding p by auto
  have b: "set (map fst rest) \<subseteq> K" using Cons.prems(3) by simp
  have f: "filter (\<lambda>x. x \<in> K) (nodeOrder c2) = filter (\<lambda>x. x \<in> K) (nodeOrder c) @ [i]"
    using Cons.prems(2,3) unfolding o2 p x by auto
  have "map fst (x # rest) = i # map fst rest" by (simp add: x)
  with Cons.IH [OF r a b] show ?case by (simp add: f)
qed

lemma addNodes_ids_nonempty:
  assumes "addNodes refuses l s = Inr s'"
  shows "[] \<notin> set (map fst l)"
  using assms
proof (induction l arbitrary: s)
  case Nil
  then show ?case by simp
next
  case (Cons x rest)
  obtain i n d where x: "x = (i, n, d)" by (cases x)
  from Cons.prems(1) [unfolded x] obtain s1 c2 where
    c2: "add refuses (nodeData i n) (snd s1) = Inr c2"
    and r: "addNodes refuses rest (fst s1, c2) = Inr s'"
    by (rule addNodes_Cons_Inr)
  from add_Inr(1) [OF c2] have "i \<noteq> []" by simp
  with Cons.IH [OF r] show ?case by (simp add: x)
qed

lemma addNodes_mono:
  assumes "addNodes refuses l s = Inr s'"
  shows "fst s \<subseteq> fst s'"
proof -
  define A where "A = fst s"
  define Q where "Q = (\<lambda>s' :: string set \<times> cy. A \<subseteq> fst s')"
  have "Q s" unfolding Q_def A_def by simp
  with assms have "Q s'"
    by (rule addNodes_preserves) (auto simp: Q_def dest: ensure_Inr(1))
  then show ?thesis unfolding Q_def A_def .
qed

lemma addEdges_mono:
  assumes "addEdges refuses uuid k es s = Inr s'"
  shows "fst s \<subseteq> fst s'"
proof -
  define A where "A = fst s"
  define Q where "Q = (\<lambda>s' :: string set \<times> cy. A \<subseteq> fst s')"
  have "Q s" unfolding Q_def A_def by simp
  with assms have "Q s'"
    by (rule addEdges_preserves) (auto simp: Q_def dest: ensure_Inr(1))
  then show ?thesis unfolding Q_def A_def .
qed

lemma addEdges_endpoints:
  assumes "addEdges refuses uuid k es s = Inr s'" "e \<in> set es"
  shows "source e \<in> fst s' \<and> target e \<in> fst s'"
  using assms
proof (induction es arbitrary: k s)
  case Nil
  then show ?case by simp
next
  case (Cons x es)
  from Cons.prems(1) obtain s1 s2 c' where
    s1: "ensureNodeExists refuses (source x) s = Inr s1"
    and s2: "ensureNodeExists refuses (target x) s1 = Inr s2"
    and r: "addEdges refuses uuid (k + 1) es (fst s2, c') = Inr s'"
    by (rule addEdges_Cons_Inr)
  show ?case
  proof (cases "e = x")
    case True
    have "source x \<in> fst s2 \<and> target x \<in> fst s2"
      using ensure_Inr(1) [OF s1] ensure_Inr(1) [OF s2] by simp
    with addEdges_mono [OF r] True show ?thesis by auto
  next
    case False
    with Cons.prems(2) have "e \<in> set es" by simp
    from Cons.IH [OF r this] show ?thesis .
  qed
qed

lemma addEdges_inv:
  assumes "addEdges refuses uuid k es (ids, c) = Inr s'"
    and "ids = set (nodeOrder c)" "distinct (nodeOrder c)"
  shows "fst s' = set (nodeOrder (snd s')) \<and> distinct (nodeOrder (snd s'))"
  using assms
proof (induction es arbitrary: k ids c)
  case Nil
  then show ?case by auto
next
  case (Cons e es)
  from Cons.prems(1) obtain s1 s2 c3 where
    s1: "ensureNodeExists refuses (source e) (ids, c) = Inr s1"
    and s2: "ensureNodeExists refuses (target e) s1 = Inr s2"
    and c3: "add refuses (edgeData (uuid k) e) (snd s2) = Inr c3"
    and r: "addEdges refuses uuid (k + 1) es (fst s2, c3) = Inr s'"
    by (rule addEdges_Cons_Inr)
  note e1 = ensure_Inr(1,2) [OF s1, simplified]
  note e2 = ensure_Inr(1,2) [OF s2]
  have o3: "nodeOrder c3 = nodeOrder (snd s2)"
    using add_Inr(2) [OF c3] by simp
  have a: "fst s2 = set (nodeOrder c3)"
    using Cons.prems(2) unfolding o3 e2 e1 by auto
  have b: "distinct (nodeOrder c3)"
    using Cons.prems(2,3) unfolding o3 e2 e1 by auto
  from Cons.IH [OF r a b] show ?case .
qed

lemma addEdges_filter:
  assumes "addEdges refuses uuid k es (ids, c) = Inr s'" and "K \<subseteq> ids"
  shows "filter (\<lambda>x. x \<in> K) (nodeOrder (snd s')) = filter (\<lambda>x. x \<in> K) (nodeOrder c)"
  using assms
proof (induction es arbitrary: k ids c)
  case Nil
  then show ?case by auto
next
  case (Cons e es)
  from Cons.prems(1) obtain s1 s2 c3 where
    s1: "ensureNodeExists refuses (source e) (ids, c) = Inr s1"
    and s2: "ensureNodeExists refuses (target e) s1 = Inr s2"
    and c3: "add refuses (edgeData (uuid k) e) (snd s2) = Inr c3"
    and r: "addEdges refuses uuid (k + 1) es (fst s2, c3) = Inr s'"
    by (rule addEdges_Cons_Inr)
  note e1 = ensure_Inr(1,2) [OF s1, simplified]
  note e2 = ensure_Inr(1,2) [OF s2]
  have o3: "nodeOrder c3 = nodeOrder (snd s2)"
    using add_Inr(2) [OF c3] by simp
  have a: "K \<subseteq> fst s2"
    using Cons.prems(2) unfolding e2 e1 by auto
  have f: "filter (\<lambda>x. x \<in> K) (nodeOrder c3) = filter (\<lambda>x. x \<in> K) (nodeOrder c)"
    using Cons.prems(2) unfolding o3 e2 e1 by auto
  from Cons.IH [OF r a] show ?case unfolding f .
qed


lemma nodesWithDepthFrom_Some:
  "nodesWithDepthFrom ns es arr = Some res \<Longrightarrow>
     \<exists>zs. res = arr @ zs \<and> map (\<lambda>(i, n, d). (i, n)) zs = es \<and>
          (\<forall>(i, n, d) \<in> set zs. depthWalk ns (parent n) 0 = Some d)"
proof (induction es arbitrary: arr)
  case Nil
  then show ?case by simp
next
  case (Cons e es)
  obtain i n where e: "e = (i, n)" by (cases e)
  from Cons.prems obtain d where d: "depthWalk ns (parent n) 0 = Some d"
    and r: "nodesWithDepthFrom ns es (arr @ [(i, n, d)]) = Some res"
    by (auto simp: e split: option.splits)
  from Cons.IH [OF r] obtain zs where zs: "res = (arr @ [(i, n, d)]) @ zs"
    "map (\<lambda>(i, n, d). (i, n)) zs = es"
    "\<forall>(i, n, d) \<in> set zs. depthWalk ns (parent n) 0 = Some d"
    by blast
  show ?case
  proof (intro exI conjI)
    show "res = arr @ ((i, n, d) # zs)" using zs(1) by simp
    show "map (\<lambda>(i, n, d). (i, n)) ((i, n, d) # zs) = e # es" using zs(2) e by simp
    show "\<forall>(i, n, d) \<in> set ((i, n, d) # zs). depthWalk ns (parent n) 0 = Some d"
      using zs(3) d by simp
  qed
qed

lemma nodesWithDepth_Some:
  assumes "nodesWithDepth ds = Some nwd"
  shows "map (\<lambda>(i, n, d). (i, n)) nwd = nodes ds"
    and "\<And>i n d. (i, n, d) \<in> set nwd \<Longrightarrow> depthWalk (nodes ds) (parent n) 0 = Some d"
  using nodesWithDepthFrom_Some [OF assms [unfolded nodesWithDepth_def]] by auto

lemma nodesWithDepth_keys:
  assumes "nodesWithDepth ds = Some nwd"
  shows "map fst nwd = map fst (nodes ds)"
proof -
  have "map fst (nodes ds) = map (fst \<circ> (\<lambda>(i, n, d). (i, n))) nwd"
    using nodesWithDepth_Some(1) [OF assms, symmetric] by simp
  also have "fst \<circ> (\<lambda>(i, n, d). (i, n)) = (fst :: string \<times> node \<times> nat \<Rightarrow> string)"
    by (simp add: fun_eq_iff)
  finally show ?thesis by simp
qed

lemma sorted_keys:
  assumes "nodesWithDepth ds = Some nwd"
  shows "fst ` set (sort_key f nwd) = set (map fst (nodes ds))"
  using arg_cong [OF nodesWithDepth_keys [OF assms], of set] by simp



lemma nodeOrder_removeElements [simp]: "nodeOrder (removeElements c) = []"
  by (simp add: nodeOrder_def removeElements_def)

lemma elements_removeElements [simp]: "elements (removeElements c) = []"
  by (simp add: removeElements_def)

text \<open>Facts about the rebuilt model.\<close>

lemma rebuild_Inr:
  assumes "rebuild refuses uuid ds c = Some (Inr c2)"
  obtains nwd sN sE where "nodesWithDepth ds = Some nwd"
    "addNodes refuses (sort_key (\<lambda>(i, n, d). d) nwd)
       (set (map fst (nodes ds)), removeElements c) = Inr sN"
    "addEdges refuses uuid 0 (edges ds) sN = Inr sE" "c2 = snd sE"
  using assms by (auto simp: rebuild_def Let_def split: option.splits sum.splits)

lemma rebuild_returns:
  assumes "nodesWithDepth ds = Some nwd"
  shows "\<exists>r. rebuild refuses uuid ds c = Some r"
  using assms by (simp add: rebuild_def Let_def)

lemma rebuild_None:
  "rebuild refuses uuid ds c = None \<longleftrightarrow> nodesWithDepth ds = None"
  by (simp add: rebuild_def Let_def split: option.splits)

lemma rebuild_frame:
  assumes "P (removeElements c)" and "\<And>d c c'. P c \<Longrightarrow> add refuses d c = Inr c' \<Longrightarrow> P c'"
  shows "case rebuild refuses uuid ds c of
           None \<Rightarrow> True
         | Some (Inl (e, c')) \<Rightarrow> P c'
         | Some (Inr c') \<Rightarrow> P c'"
proof (cases "nodesWithDepth ds")
  case None
  then show ?thesis by (simp add: rebuild_def Let_def)
next
  case (Some nwd)
  define rN where "rN = addNodes refuses (sort_key (\<lambda>(i, n, d). d) nwd)
       (set (map fst (nodes ds)), removeElements c)"
  have fN: "case rN of Inl (e, c) \<Rightarrow> P c | Inr s' \<Rightarrow> P (snd s')"
    unfolding rN_def by (rule addNodes_frame) (use assms in auto)
  have eq: "rebuild refuses uuid ds c =
      Some (case rN of Inl x \<Rightarrow> Inl x
            | Inr sN \<Rightarrow> (case addEdges refuses uuid 0 (edges ds) sN of
                           Inl x \<Rightarrow> Inl x | Inr sE \<Rightarrow> Inr (snd sE)))"
    using Some by (simp add: rebuild_def Let_def rN_def)
  show ?thesis
  proof (cases rN)
    case (Inl x)
    with fN show ?thesis unfolding eq by (cases x) simp
  next
    case (Inr sN)
    with fN have "P (snd sN)" by simp
    then have "case addEdges refuses uuid 0 (edges ds) sN of
        Inl (e, c) \<Rightarrow> P c | Inr s' \<Rightarrow> P (snd s')"
      by (rule addEdges_frame) (use assms(2) in auto)
    with Inr show ?thesis unfolding eq by (auto split: sum.splits)
  qed
qed

lemma rebuild_order:
  assumes "rebuild refuses uuid ds c = Some (Inr c2)"
  shows "\<exists>nwd. nodesWithDepth ds = Some nwd \<and>
           filter (\<lambda>x. x \<in> set (map fst (nodes ds))) (nodeOrder c2) =
             map fst (sort_key (\<lambda>(i, n, d). d) nwd)"
proof -
  from assms obtain nwd sN sE where nwd: "nodesWithDepth ds = Some nwd"
    and sN: "addNodes refuses (sort_key (\<lambda>(i, n, d). d) nwd)
       (set (map fst (nodes ds)), removeElements c) = Inr sN"
    and sE: "addEdges refuses uuid 0 (edges ds) sN = Inr sE" and c2: "c2 = snd sE"
    by (rule rebuild_Inr)
  define K where "K = set (map fst (nodes ds))"
  define l where "l = sort_key (\<lambda>(i, n, d). d) nwd"
  have lK: "fst ` set l = K"
    unfolding l_def K_def by (rule sorted_keys [OF nwd])
  have n: "filter (\<lambda>x. x \<in> K) (nodeOrder (snd sN)) = map fst l \<and> K \<subseteq> fst sN"
    using addNodes_filter [OF sN [folded K_def l_def], of K] lK by simp
  have "addEdges refuses uuid 0 (edges ds) (fst sN, snd sN) = Inr sE" using sE by simp
  from addEdges_filter [OF this, of K] n
  have "filter (\<lambda>x. x \<in> K) (nodeOrder c2) = map fst l"
    unfolding c2 by simp
  with nwd show ?thesis unfolding K_def l_def by blast
qed

lemma rebuild_distinct:
  assumes "rebuild refuses uuid ds c = Some (Inr c2)" "distinct (map fst (nodes ds))"
  shows "distinct (nodeOrder c2)"
proof -
  from assms(1) obtain nwd sN sE where nwd: "nodesWithDepth ds = Some nwd"
    and sN: "addNodes refuses (sort_key (\<lambda>(i, n, d). d) nwd)
       (set (map fst (nodes ds)), removeElements c) = Inr sN"
    and sE: "addEdges refuses uuid 0 (edges ds) sN = Inr sE" and c2: "c2 = snd sE"
    by (rule rebuild_Inr)
  define K where "K = set (map fst (nodes ds))"
  define l where "l = sort_key (\<lambda>(i, n, d). d) nwd"
  have m: "map fst nwd = map fst (nodes ds)" by (rule nodesWithDepth_keys [OF nwd])
  have lK: "fst ` set l = K"
    unfolding l_def K_def by (rule sorted_keys [OF nwd])
  have "distinct (map fst nwd)" using m assms(2) by simp
  then have "distinct nwd \<and> inj_on fst (set nwd)" by (simp add: distinct_map)
  then have dl: "distinct (map fst l)"
    unfolding l_def by (simp add: distinct_map)
  have "fst sN = set (nodeOrder (snd sN)) \<and> distinct (nodeOrder (snd sN))"
    by (rule addNodes_inv [OF sN [folded K_def l_def]]) (simp_all add: lK dl)
  moreover have "addEdges refuses uuid 0 (edges ds) (fst sN, snd sN) = Inr sE" using sE by simp
  ultimately have "distinct (nodeOrder (snd sE))"
    using addEdges_inv by blast
  then show ?thesis unfolding c2 .
qed

lemma rebuild_keys:
  assumes "rebuild refuses uuid ds c = Some (Inr c2)"
  shows "set (map fst (nodes ds)) \<subseteq> set (nodeOrder c2)" and "[] \<notin> set (map fst (nodes ds))"
proof -
  from assms obtain nwd sN sE where nwd: "nodesWithDepth ds = Some nwd"
    and sN: "addNodes refuses (sort_key (\<lambda>(i, n, d). d) nwd)
       (set (map fst (nodes ds)), removeElements c) = Inr sN"
    by (rule rebuild_Inr)
  have "set (map fst (sort_key (\<lambda>(i, n, d). d) nwd)) = set (map fst (nodes ds))"
    using sorted_keys [OF nwd] by simp
  with addNodes_ids_nonempty [OF sN] show "[] \<notin> set (map fst (nodes ds))" by simp
  from rebuild_order [OF assms] nwd have
    f: "filter (\<lambda>x. x \<in> set (map fst (nodes ds))) (nodeOrder c2) =
      map fst (sort_key (\<lambda>(i, n, d). d) nwd)" by simp
  show "set (map fst (nodes ds)) \<subseteq> set (nodeOrder c2)"
  proof
    fix x assume "x \<in> set (map fst (nodes ds))"
    then have "x \<in> set (map fst (sort_key (\<lambda>(i, n, d). d) nwd))"
      using sorted_keys [OF nwd, of "\<lambda>(i, n, d). d"] by simp
    then have "x \<in> set (filter (\<lambda>x. x \<in> set (map fst (nodes ds))) (nodeOrder c2))"
      unfolding f .
    then show "x \<in> set (nodeOrder c2)" by simp
  qed
qed

lemma rebuild_endpoints:
  assumes "rebuild refuses uuid ds c = Some (Inr c2)" "e \<in> set (edges ds)"
  shows "source e \<in> set (nodeOrder c2) \<and> target e \<in> set (nodeOrder c2)"
proof -
  from assms(1) obtain nwd sN sE where nwd: "nodesWithDepth ds = Some nwd"
    and sN: "addNodes refuses (sort_key (\<lambda>(i, n, d). d) nwd)
       (set (map fst (nodes ds)), removeElements c) = Inr sN"
    and sE: "addEdges refuses uuid 0 (edges ds) sN = Inr sE" and c2: "c2 = snd sE"
    by (rule rebuild_Inr)
  define K where "K = set (map fst (nodes ds))"
  define Q where "Q = (\<lambda>s :: string set \<times> cy. fst s \<subseteq> set (nodeOrder (snd s)) \<union> K)"
  have qe: "Q s'" if "Q s" "ensureNodeExists refuses p s = Inr s'" for p s s'
    using that(1) ensure_Inr(1,2) [OF that(2)] unfolding Q_def by auto
  have qa: "Q (fst s, c')" if "Q s" "add refuses d (snd s) = Inr c'" for d s c'
    using that(1) add_Inr(2) [OF that(2)] unfolding Q_def by auto
  have "Q (K, removeElements c)" unfolding Q_def by simp
  with sN [folded K_def] have "Q sN"
  proof (rule addNodes_preserves [where Q = Q])
    show "Q s'" if "Q s" "ensureNodeExists refuses p s = Inr s'" for p s s'
      using that by (rule qe)
    show "Q (fst s, c')" if "Q s" "add refuses (nodeData i n) (snd s) = Inr c'" for i n s c'
      using that by (rule qa)
  qed
  with sE have "Q sE"
  proof (rule addEdges_preserves [where Q = Q])
    show "Q s'" if "Q s" "ensureNodeExists refuses p s = Inr s'" for p s s'
      using that by (rule qe)
    show "Q (fst s, c')" if "Q s" "add refuses (edgeData (uuid k) e) (snd s) = Inr c'" for k e s c'
      using that by (rule qa)
  qed
  moreover have "K \<subseteq> set (nodeOrder (snd sE))"
    using rebuild_keys(1) [OF assms(1)] unfolding K_def c2 .
  ultimately have "fst sE \<subseteq> set (nodeOrder (snd sE))" unfolding Q_def by auto
  moreover have "source e \<in> fst sE \<and> target e \<in> fst sE"
    by (rule addEdges_endpoints [OF sE assms(2)])
  ultimately show ?thesis unfolding c2 by auto
qed

lemma data_add_image:
  assumes "add refuses d c = Inr c'"
  obtains d' where "data ` set (elements c') = insert d' (data ` set (elements c))"
    "data_id d' = data_id d" "isNodeData d' = isNodeData d" "data_parent d = None \<longrightarrow> d' = d"
proof -
  from assms obtain d' where
    d': "elements c' = elements c @
             [\<lparr>data = d', position = (0, 0), selected = False, collapsed = False\<rparr>]"
    "data_id d' = data_id d" "isNodeData d' = isNodeData d" "data_parent d = None \<longrightarrow> d' = d"
    by (rule add_Inr_elements)
  from d'(1) have "data ` set (elements c') = insert d' (data ` set (elements c))" by simp
  then show ?thesis using d'(2,3,4) by (rule that)
qed

lemma rebuild_placeholders:
  assumes "rebuild refuses uuid ds c = Some (Inr c2)"
  shows "(\<forall>d \<in> data ` set (elements c2).
            isNodeData d \<and> data_id d \<notin> set (map fst (nodes ds)) \<longrightarrow> d = placeholder (data_id d)) \<and>
         (\<forall>x \<in> set (nodeOrder c2). x \<notin> set (map fst (nodes ds)) \<longrightarrow>
            placeholder x \<in> data ` set (elements c2))"
proof -
  from assms(1) obtain nwd sN sE where nwd: "nodesWithDepth ds = Some nwd"
    and sN: "addNodes refuses (sort_key (\<lambda>(i, n, d). d) nwd)
       (set (map fst (nodes ds)), removeElements c) = Inr sN"
    and sE: "addEdges refuses uuid 0 (edges ds) sN = Inr sE" and c2: "c2 = snd sE"
    by (rule rebuild_Inr)
  define K where "K = set (map fst (nodes ds))"
  define l where "l = sort_key (\<lambda>(i, n, d). d) nwd"
  have lK: "fst ` set l = K"
    unfolding l_def K_def by (rule sorted_keys [OF nwd])
  define Q where "Q = (\<lambda>s :: string set \<times> cy.
     (\<forall>d \<in> data ` set (elements (snd s)). isNodeData d \<and> data_id d \<notin> K \<longrightarrow> d = placeholder (data_id d)) \<and>
     (\<forall>x \<in> set (nodeOrder (snd s)). x \<notin> K \<longrightarrow> placeholder x \<in> data ` set (elements (snd s))))"
  have qa: "Q (fst s, c')"
    if "Q s" "add refuses d (snd s) = Inr c'"
      "(isNodeData d \<longrightarrow> data_id d \<in> K) \<or> d = placeholder (data_id d)" for d s c'
  proof -
    from that(2) obtain d' where
      d': "data ` set (elements c') = insert d' (data ` set (elements (snd s)))"
      "data_id d' = data_id d" "isNodeData d' = isNodeData d" "data_parent d = None \<longrightarrow> d' = d"
      by (rule data_add_image)
    have pn: "data_parent (placeholder i) = None" for i by (simp add: placeholder_def)
    have p: "d' = placeholder (data_id d')" if "d = placeholder (data_id d)"
    proof -
      from that pn [of "data_id d"] have "data_parent d = None" by simp
      with d'(4) have "d' = d" by simp
      with that show ?thesis by simp
    qed
    have new: "d' = placeholder (data_id d')" if "isNodeData d'" "data_id d' \<notin> K"
      using that \<open>(isNodeData d \<longrightarrow> data_id d \<in> K) \<or> d = placeholder (data_id d)\<close> p
      unfolding d'(2,3) by blast
    have old1: "\<forall>d \<in> data ` set (elements (snd s)).
        isNodeData d \<and> data_id d \<notin> K \<longrightarrow> d = placeholder (data_id d)"
      and old2: "\<forall>x \<in> set (nodeOrder (snd s)). x \<notin> K \<longrightarrow>
        placeholder x \<in> data ` set (elements (snd s))"
      using \<open>Q s\<close> unfolding Q_def by simp_all
    have a: "\<forall>d \<in> data ` set (elements c').
        isNodeData d \<and> data_id d \<notin> K \<longrightarrow> d = placeholder (data_id d)"
      unfolding d'(1) using old1 new by blast
    have o: "nodeOrder c' = nodeOrder (snd s) @ (if isNodeData d' then [data_id d'] else [])"
      using add_Inr(2) [OF that(2)] unfolding d'(2,3) .
    have b: "\<forall>x \<in> set (nodeOrder c'). x \<notin> K \<longrightarrow> placeholder x \<in> data ` set (elements c')"
    proof (intro ballI impI)
      fix x assume x: "x \<in> set (nodeOrder c')" "x \<notin> K"
      show "placeholder x \<in> data ` set (elements c')"
      proof (cases "x \<in> set (nodeOrder (snd s))")
        case True
        with old2 x(2) show ?thesis unfolding d'(1) by blast
      next
        case False
        with x(1) have "isNodeData d'" "x = data_id d'" unfolding o by (auto split: if_splits)
        with new x(2) have "d' = placeholder x" by simp
        then show ?thesis unfolding d'(1) by simp
      qed
    qed
    from a b show ?thesis unfolding Q_def by simp
  qed
  have qe: "Q s'" if "Q s" "ensureNodeExists refuses p s = Inr s'" for p s s'
    using ensure_Inr_cases [OF that(2)]
  proof
    assume "p \<in> fst s \<and> s' = s"
    with that(1) show ?thesis by simp
  next
    assume "p \<notin> fst s \<and> (\<exists>c'. add refuses (placeholder p) (snd s) = Inr c' \<and>
                               s' = (insert p (fst s), c'))"
    then obtain c' where c': "add refuses (placeholder p) (snd s) = Inr c'"
      "s' = (insert p (fst s), c')" by blast
    have "Q (fst s, c')" by (rule qa [OF that(1) c'(1)]) simp
    then show ?thesis unfolding c'(2) Q_def by simp
  qed
  have "Q (K, removeElements c)" unfolding Q_def by simp
  with sN [folded K_def l_def] have "Q sN"
  proof (rule addNodes_preserves [where Q = Q])
    show "Q s'" if "Q s" "ensureNodeExists refuses p s = Inr s'" for p s s'
      using that by (rule qe)
    show "Q (fst s, c')" if "(i, n, d) \<in> set l" "Q s" "add refuses (nodeData i n) (snd s) = Inr c'"
      for i n d s c'
    proof (rule qa [OF that(2,3)])
      from that(1) have "fst (i, n, d) \<in> fst ` set l" by (rule imageI)
      then show "(isNodeData (nodeData i n) \<longrightarrow> data_id (nodeData i n) \<in> K) \<or>
          nodeData i n = placeholder (data_id (nodeData i n))"
        using lK by simp
    qed
  qed
  with sE have "Q sE"
  proof (rule addEdges_preserves [where Q = Q])
    show "Q s'" if "Q s" "ensureNodeExists refuses p s = Inr s'" for p s s'
      using that by (rule qe)
    show "Q (fst s, c')" if "Q s" "add refuses (edgeData (uuid k) e) (snd s) = Inr c'" for k e s c'
      by (rule qa [OF that]) simp
  qed
  then show ?thesis unfolding Q_def c2 K_def by simp
qed

lemma rebuild_positions:
  assumes "rebuild refuses uuid ds c = Some (Inr c2)"
  shows "\<forall>e \<in> set (elements c2). position e = (0, 0)"
proof -
  define P where "P = (\<lambda>c :: cy. \<forall>e \<in> set (elements c). position e = (0, 0))"
  have "case rebuild refuses uuid ds c of
           None \<Rightarrow> True
         | Some (Inl (e, c')) \<Rightarrow> P c'
         | Some (Inr c') \<Rightarrow> P c'"
  proof (rule rebuild_frame)
    show "P (removeElements c)" unfolding P_def by simp
    show "P c'" if "P c" "add refuses d c = Inr c'" for d c c'
    proof -
      from that(2) obtain d' where "elements c' = elements c @
          [\<lparr>data = d', position = (0, 0), selected = False, collapsed = False\<rparr>]"
        by (rule add_Inr_elements)
      with that(1) show ?thesis unfolding P_def by simp
    qed
  qed
  with assms show ?thesis unfolding P_def by simp
qed

lemma rebuild_batch:
  "case rebuild refuses uuid ds c of
     None \<Rightarrow> True
   | Some (Inl (e, c')) \<Rightarrow> batchCount c' = batchCount c \<and> endBatchCalls c' = endBatchCalls c
   | Some (Inr c') \<Rightarrow> batchCount c' = batchCount c \<and> endBatchCalls c' = endBatchCalls c"
proof (rule rebuild_frame
    [where P = "\<lambda>c'. batchCount c' = batchCount c \<and> endBatchCalls c' = endBatchCalls c"])
  show "batchCount (removeElements c) = batchCount c \<and>
      endBatchCalls (removeElements c) = endBatchCalls c"
    by (simp add: removeElements_def)
  show "batchCount c'' = batchCount c \<and> endBatchCalls c'' = endBatchCalls c"
    if "batchCount c' = batchCount c \<and> endBatchCalls c' = endBatchCalls c"
      "add refuses d c' = Inr c''" for d c' c''
    using that(1) add_Inr(3,4) [OF that(2)] by simp
qed

text \<open>
  When the engine accepts every acceptable element, no identifier handed to it is empty
  and the generated edge identifiers are fresh, every \<open>add\<close> of the rebuild is
  accepted.
\<close>

lemma elementIds_removeElements [simp]: "elementIds (removeElements c) = []"
  by (simp add: elementIds_def)

lemma elementIds_add:
  assumes "add refuses d c = Inr c'"
  shows "elementIds c' = elementIds c @ [data_id d]"
proof -
  from assms obtain d' where "elements c' = elements c @
      [\<lparr>data = d', position = (0, 0), selected = False, collapsed = False\<rparr>]"
    "data_id d' = data_id d"
    by (rule add_Inr_elements)
  then show ?thesis by (simp add: elementIds_def)
qed

lemma add_acceptable:
  assumes "refusesOnlyIllFormed refuses" "acceptable d c"
  obtains c' where "add refuses d c = Inr c'"
proof -
  from assms have "data_id d \<noteq> []" "refuses d c = None"
    by (simp_all add: refusesOnlyIllFormed_def acceptable_def)
  then have "\<exists>c'. add refuses d c = Inr c'" by (rule add_accepts)
  then show ?thesis using that by blast
qed

lemma ensure_elementIds:
  assumes "ensureNodeExists refuses i s = Inr s'"
  shows "elementIds (snd s') = elementIds (snd s) @ (if i \<in> fst s then [] else [i])"
  using ensure_Inr_cases [OF assms] by (auto dest: elementIds_add)

lemma ensure_acceptable:
  assumes "refusesOnlyIllFormed refuses" "i \<noteq> []" "i \<notin> fst s \<longrightarrow> i \<notin> set (elementIds (snd s))"
  obtains s' where "ensureNodeExists refuses i s = Inr s'"
proof (cases "i \<in> fst s")
  case True
  then have "ensureNodeExists refuses i s = Inr s" by (cases s) (simp add: ensure_in)
  then show ?thesis by (rule that)
next
  case False
  with assms(2,3) have "acceptable (placeholder i) (snd s)" by (simp add: acceptable_def)
  with assms(1) obtain c' where "add refuses (placeholder i) (snd s) = Inr c'"
    by (rule add_acceptable)
  with False have "ensureNodeExists refuses i s = Inr (insert i (fst s), c')"
    by (cases s) (simp add: ensure_notin)
  then show ?thesis by (rule that)
qed

lemma addNodes_acceptable:
  assumes ok: "refusesOnlyIllFormed refuses"
    and "[] \<notin> set (map fst l)"
    and "ids = set (nodeOrder c) \<union> set (map fst l)" "distinct (nodeOrder c @ map fst l)"
    and "elementIds c = nodeOrder c" "set (nodeOrder c) \<subseteq> U"
    and "\<forall>(i, n, d) \<in> set l. i \<in> U \<and> (truthy (parent n) \<longrightarrow> the (parent n) \<in> U)"
  shows "\<exists>s'. addNodes refuses l (ids, c) = Inr s' \<and> elementIds (snd s') = nodeOrder (snd s') \<and>
           set (nodeOrder (snd s')) \<subseteq> U"
  using assms(2-)
proof (induction l arbitrary: ids c)
  case Nil
  then show ?case by simp
next
  case (Cons x rest)
  obtain i n d where x: "x = (i, n, d)" by (cases x)
  have ine: "i \<noteq> []" using Cons.prems(1) by (auto simp: x)
  have iU: "i \<in> U" and pU: "truthy (parent n) \<longrightarrow> the (parent n) \<in> U"
    using Cons.prems(6) by (simp_all add: x)
  have sub: "set (nodeOrder c) \<subseteq> ids" using Cons.prems(2) by auto
  obtain s1 where s1:
    "(if truthy (parent n) then ensureNodeExists refuses (the (parent n)) (ids, c) else Inr (ids, c)) = Inr s1"
  proof (cases "truthy (parent n)")
    case True
    then have ne: "the (parent n) \<noteq> []" by (auto simp: truthy_def split: option.splits)
    have "the (parent n) \<notin> fst (ids, c) \<longrightarrow> the (parent n) \<notin> set (elementIds (snd (ids, c)))"
      using sub Cons.prems(4) by auto
    with ok ne obtain s1 where "ensureNodeExists refuses (the (parent n)) (ids, c) = Inr s1"
      by (rule ensure_acceptable)
    with True that show ?thesis by simp
  next
    case False
    with that show ?thesis by simp
  qed
  note p = parentStep_Inr [OF s1, simplified]
  have e1: "elementIds (snd s1) = nodeOrder (snd s1)"
  proof (cases "truthy (parent n)")
    case True
    with s1 have "ensureNodeExists refuses (the (parent n)) (ids, c) = Inr s1" by simp
    from ensure_elementIds [OF this] ensure_Inr(2) [OF this] Cons.prems(4)
    show ?thesis by simp
  next
    case False
    with s1 Cons.prems(4) show ?thesis by auto
  qed
  have u1: "set (nodeOrder (snd s1)) \<subseteq> U"
    unfolding p using Cons.prems(5) pU by auto
  have inot: "i \<notin> set (nodeOrder (snd s1))"
    unfolding p using Cons.prems(2,3) by (auto simp: x)
  have "acceptable (nodeData i n) (snd s1)"
    using ine inot e1 by (simp add: acceptable_def)
  with ok obtain c2 where c2: "add refuses (nodeData i n) (snd s1) = Inr c2"
    by (rule add_acceptable)
  have o2: "nodeOrder c2 = nodeOrder (snd s1) @ [i]"
    using add_Inr(2) [OF c2] by simp
  have e2: "elementIds c2 = nodeOrder c2"
    using elementIds_add [OF c2] e1 o2 by simp
  have a: "fst s1 = set (nodeOrder c2) \<union> set (map fst rest)"
    using Cons.prems(2) unfolding o2 p x by auto
  have b: "distinct (nodeOrder c2 @ map fst rest)"
    using Cons.prems(2,3) unfolding o2 p x by auto
  have u2: "set (nodeOrder c2) \<subseteq> U" unfolding o2 using u1 iU by simp
  have r1: "[] \<notin> set (map fst rest)" using Cons.prems(1) by simp
  have r6: "\<forall>(i, n, d) \<in> set rest. i \<in> U \<and> (truthy (parent n) \<longrightarrow> the (parent n) \<in> U)"
    using Cons.prems(6) by simp
  from Cons.IH [OF r1 a b e2 u2 r6] obtain s' where
    "addNodes refuses rest (fst s1, c2) = Inr s'" "elementIds (snd s') = nodeOrder (snd s')"
    "set (nodeOrder (snd s')) \<subseteq> U"
    by blast
  with s1 c2 show ?case unfolding x by simp
qed

text \<open>
  The state of the edge loop: the known identifiers are the nodes of the model, which
  all occur in the data set, and every other element has one of the identifiers \<open>V\<close>
  generated so far, none of which occurs in the data set.
\<close>

lemma ensure_edgeLoop:
  assumes ok: "refusesOnlyIllFormed refuses"
    and inv: "fst s = set (nodeOrder (snd s))" "set (nodeOrder (snd s)) \<subseteq> U"
      "set (elementIds (snd s)) \<subseteq> set (nodeOrder (snd s)) \<union> V" "V \<inter> U = {}"
    and i: "i \<in> U" "i \<noteq> []"
  obtains s' where "ensureNodeExists refuses i s = Inr s'"
    "fst s' = set (nodeOrder (snd s'))" "set (nodeOrder (snd s')) \<subseteq> U"
    "set (elementIds (snd s')) \<subseteq> set (nodeOrder (snd s')) \<union> V" "i \<in> fst s'" "fst s \<subseteq> fst s'"
proof -
  have "i \<notin> fst s \<longrightarrow> i \<notin> set (elementIds (snd s))"
    using inv i(1) by auto
  with ok i(2) obtain s' where s': "ensureNodeExists refuses i s = Inr s'"
    by (rule ensure_acceptable)
  note f = ensure_Inr(1,2) [OF s'] ensure_elementIds [OF s']
  show ?thesis
  proof (rule that [OF s'])
    show "fst s' = set (nodeOrder (snd s'))" unfolding f using inv(1) by auto
    show "set (nodeOrder (snd s')) \<subseteq> U" unfolding f using inv(2) i(1) by auto
    show "set (elementIds (snd s')) \<subseteq> set (nodeOrder (snd s')) \<union> V"
      unfolding f using inv(3) by auto
    show "i \<in> fst s'" "fst s \<subseteq> fst s'" unfolding f by auto
  qed
qed

lemma addEdges_acceptable:
  assumes ok: "refusesOnlyIllFormed refuses"
    and "ids = set (nodeOrder c)" "set (nodeOrder c) \<subseteq> U"
    and "set (elementIds c) \<subseteq> set (nodeOrder c) \<union> uuid ` {..<k}" "uuid ` {..<k} \<inter> U = {}"
    and "set (map source es) \<subseteq> U" "set (map target es) \<subseteq> U"
    and "[] \<notin> set (map source es)" "[] \<notin> set (map target es)"
    and "\<forall>j. k \<le> j \<and> j < k + length es \<longrightarrow>
           uuid j \<noteq> [] \<and> uuid j \<notin> U \<and> uuid j \<notin> uuid ` {..<j}"
  shows "\<exists>s'. addEdges refuses uuid k es (ids, c) = Inr s'"
  using assms(2-)
proof (induction es arbitrary: k ids c)
  case Nil
  show ?case by simp
next
  case (Cons e rest)
  have uk: "uuid k \<noteq> []" "uuid k \<notin> U" "uuid k \<notin> uuid ` {..<k}"
    using Cons.prems(9) [THEN spec, of k] by simp_all
  have src: "source e \<in> U" "source e \<noteq> []" and tgt: "target e \<in> U" "target e \<noteq> []"
    using Cons.prems(5-8) by auto
  have i0: "fst (ids, c) = set (nodeOrder (snd (ids, c)))"
    "set (nodeOrder (snd (ids, c))) \<subseteq> U"
    "set (elementIds (snd (ids, c))) \<subseteq> set (nodeOrder (snd (ids, c))) \<union> uuid ` {..<k}"
    using Cons.prems(1-3) by simp_all
  from ok i0 Cons.prems(4) src obtain s1 where
    s1: "ensureNodeExists refuses (source e) (ids, c) = Inr s1"
    and i1: "fst s1 = set (nodeOrder (snd s1))" "set (nodeOrder (snd s1)) \<subseteq> U"
      "set (elementIds (snd s1)) \<subseteq> set (nodeOrder (snd s1)) \<union> uuid ` {..<k}"
    and m1: "source e \<in> fst s1"
    by (rule ensure_edgeLoop)
  from ok i1 Cons.prems(4) tgt obtain s2 where
    s2: "ensureNodeExists refuses (target e) s1 = Inr s2"
    and i2: "fst s2 = set (nodeOrder (snd s2))" "set (nodeOrder (snd s2)) \<subseteq> U"
      "set (elementIds (snd s2)) \<subseteq> set (nodeOrder (snd s2)) \<union> uuid ` {..<k}"
    and m2: "target e \<in> fst s2" "fst s1 \<subseteq> fst s2"
    by (rule ensure_edgeLoop)
  have "uuid k \<notin> set (elementIds (snd s2))"
    using i2(2,3) uk(2,3) by auto
  moreover have "source e \<in> set (nodeOrder (snd s2))" "target e \<in> set (nodeOrder (snd s2))"
    using m1 m2 i2(1) by auto
  ultimately have "acceptable (edgeData (uuid k) e) (snd s2)"
    using uk(1) by (simp add: acceptable_def edgeData_def)
  with ok obtain c3 where c3: "add refuses (edgeData (uuid k) e) (snd s2) = Inr c3"
    by (rule add_acceptable)
  have o3: "nodeOrder c3 = nodeOrder (snd s2)"
    using add_Inr(2) [OF c3] by simp
  have e3: "elementIds c3 = elementIds (snd s2) @ [uuid k]"
    using elementIds_add [OF c3] by simp
  have lt: "{..<k + 1} = insert k {..<k}" by auto
  have a1: "fst s2 = set (nodeOrder c3)" unfolding o3 by (rule i2(1))
  have a2: "set (nodeOrder c3) \<subseteq> U" unfolding o3 by (rule i2(2))
  have a3: "set (elementIds c3) \<subseteq> set (nodeOrder c3) \<union> uuid ` {..<k + 1}"
    unfolding o3 e3 lt using i2(3) by auto
  have a4: "uuid ` {..<k + 1} \<inter> U = {}"
    unfolding lt using Cons.prems(4) uk(2) by auto
  have a5: "set (map source rest) \<subseteq> U" "set (map target rest) \<subseteq> U"
    "[] \<notin> set (map source rest)" "[] \<notin> set (map target rest)"
    using Cons.prems(5-8) by simp_all
  have a9: "\<forall>j. k + 1 \<le> j \<and> j < k + 1 + length rest \<longrightarrow>
           uuid j \<noteq> [] \<and> uuid j \<notin> U \<and> uuid j \<notin> uuid ` {..<j}"
    using Cons.prems(9) by simp
  from Cons.IH [OF a1 a2 a3 a4 a5 a9] obtain s' where
    "addEdges refuses uuid (k + 1) rest (fst s2, c3) = Inr s'" by blast
  with s1 s2 c3 show ?case by simp
qed

lemma referenced_nodes:
  assumes "(i, n) \<in> set (nodes ds)"
  shows "i \<in> set (referenced ds)" and "truthy (parent n) \<longrightarrow> the (parent n) \<in> set (referenced ds)"
proof -
  from assms have "fst (i, n) \<in> fst ` set (nodes ds)" by (rule imageI)
  then show "i \<in> set (referenced ds)" by (simp add: referenced_def)
  show "truthy (parent n) \<longrightarrow> the (parent n) \<in> set (referenced ds)"
  proof
    assume "truthy (parent n)"
    then obtain p where p: "parent n = Some p" by (cases "parent n") (simp_all add: truthy_def)
    with assms have "(i, n) \<in> set (filter (\<lambda>(i, n). parent n \<noteq> None) (nodes ds))" by simp
    then have "(\<lambda>(i, n). the (parent n)) (i, n) \<in>
        (\<lambda>(i, n). the (parent n)) ` set (filter (\<lambda>(i, n). parent n \<noteq> None) (nodes ds))"
      by (rule imageI)
    then have "the (parent n) \<in>
        set (map (\<lambda>(i, n). the (parent n)) (filter (\<lambda>(i, n). parent n \<noteq> None) (nodes ds)))"
      by simp
    then show "the (parent n) \<in> set (referenced ds)" unfolding referenced_def by simp
  qed
qed

lemma rebuild_accepts:
  assumes nwd: "nodesWithDepth ds = Some nwd" and ok: "refusesOnlyIllFormed refuses"
    and ne: "noEmptyIds uuid ds" and fresh: "freshEdgeIds uuid ds"
    and keys: "distinct (map fst (nodes ds))"
  shows "\<exists>c2. rebuild refuses uuid ds c = Some (Inr c2)"
proof -
  define l where "l = sort_key (\<lambda>(i, n, d). d) nwd"
  define U where "U = set (referenced ds)"
  have sk: "set (map fst l) = set (map fst (nodes ds))"
    unfolding l_def using sorted_keys [OF nwd] by simp
  have m: "map fst nwd = map fst (nodes ds)" by (rule nodesWithDepth_keys [OF nwd])
  have "distinct (map fst nwd)" using m keys by simp
  then have "distinct nwd \<and> inj_on fst (set nwd)" by (simp add: distinct_map)
  then have dl: "distinct (map fst l)"
    unfolding l_def by (simp add: distinct_map)
  have n1: "[] \<notin> set (map fst l)" using ne unfolding sk noEmptyIds_def by blast
  have n6: "\<forall>(i, n, d) \<in> set l. i \<in> U \<and> (truthy (parent n) \<longrightarrow> the (parent n) \<in> U)"
  proof (intro ballI, clarify)
    fix i n d assume "(i, n, d) \<in> set l"
    then have "(i, n, d) \<in> set nwd" unfolding l_def by simp
    then have "(i, n) \<in> (\<lambda>(i, n, d). (i, n)) ` set nwd" by force
    then have "(i, n) \<in> set (nodes ds)"
      using nodesWithDepth_Some(1) [OF nwd] by (metis set_map)
    from referenced_nodes [OF this]
    show "i \<in> U \<and> (truthy (parent n) \<longrightarrow> the (parent n) \<in> U)" unfolding U_def by simp
  qed
  have n2: "set (map fst (nodes ds)) = set (nodeOrder (removeElements c)) \<union> set (map fst l)"
    unfolding sk by simp
  have n3: "distinct (nodeOrder (removeElements c) @ map fst l)" using dl by simp
  have n4: "elementIds (removeElements c) = nodeOrder (removeElements c)" by simp
  have n5: "set (nodeOrder (removeElements c)) \<subseteq> U" by simp
  have "\<exists>s'. addNodes refuses l (set (map fst (nodes ds)), removeElements c) = Inr s' \<and>
      elementIds (snd s') = nodeOrder (snd s') \<and> set (nodeOrder (snd s')) \<subseteq> U"
    using ok n1 n2 n3 n4 n5 n6 by (rule addNodes_acceptable)
  then obtain sN where sN: "addNodes refuses l (set (map fst (nodes ds)), removeElements c) = Inr sN"
    and eN: "elementIds (snd sN) = nodeOrder (snd sN)" and uN: "set (nodeOrder (snd sN)) \<subseteq> U"
    by blast
  have iN: "fst sN = set (nodeOrder (snd sN))"
    using addNodes_inv [OF sN n2 n3] by simp
  have fr: "distinct (map uuid [0 ..< length (edges ds)])"
    "set (map uuid [0 ..< length (edges ds)]) \<inter> U = {}"
    using fresh unfolding freshEdgeIds_def U_def by simp_all
  have u9: "\<forall>j. 0 \<le> j \<and> j < 0 + length (edges ds) \<longrightarrow>
           uuid j \<noteq> [] \<and> uuid j \<notin> U \<and> uuid j \<notin> uuid ` {..<j}"
  proof (intro allI impI)
    fix j assume "0 \<le> j \<and> j < 0 + length (edges ds)"
    then have j: "j < length (edges ds)" by simp
    then have mem: "uuid j \<in> set (map uuid [0 ..< length (edges ds)])" by simp
    have a: "uuid j \<noteq> []" using ne mem unfolding noEmptyIds_def by metis
    have b: "uuid j \<notin> U" using fr(2) mem by blast
    have inj: "inj_on uuid {0 ..< length (edges ds)}"
      using fr(1) by (simp add: distinct_map)
    have c: "uuid j \<notin> uuid ` {..<j}"
    proof
      assume "uuid j \<in> uuid ` {..<j}"
      then obtain x where x: "x < j" "uuid j = uuid x" by auto
      with j have "j \<in> {0 ..< length (edges ds)}" "x \<in> {0 ..< length (edges ds)}" by simp_all
      with inj x(2) have "j = x" by (rule inj_onD)
      with x(1) show False by simp
    qed
    from a b c show "uuid j \<noteq> [] \<and> uuid j \<notin> U \<and> uuid j \<notin> uuid ` {..<j}" by simp
  qed
  have st: "set (map source (edges ds)) \<subseteq> U" "set (map target (edges ds)) \<subseteq> U"
    unfolding U_def referenced_def by simp_all blast+
  have en: "[] \<notin> set (map source (edges ds))" "[] \<notin> set (map target (edges ds))"
    using ne unfolding noEmptyIds_def by simp_all
  have e3: "set (elementIds (snd sN)) \<subseteq> set (nodeOrder (snd sN)) \<union> uuid ` {..<0}"
    unfolding eN by simp
  have e4: "uuid ` {..<0} \<inter> U = {}" by simp
  have "\<exists>s'. addEdges refuses uuid 0 (edges ds) (fst sN, snd sN) = Inr s'"
    using ok iN uN e3 e4 st en u9 by (rule addEdges_acceptable)
  then obtain sE where "addEdges refuses uuid 0 (edges ds) sN = Inr sE" by auto
  with sN nwd show ?thesis by (simp add: rebuild_def Let_def l_def)
qed

section \<open>Insertion order and edge endpoints\<close>

lemma keepsElementData_applyViewState: "keepsElementData applyViewState"
  by (simp add: keepsElementData_def applyViewState_def applyToElement_def comp_def)

lemma keepsBatch_applyViewState: "keepsBatch applyViewState"
  by (simp add: keepsBatch_def applyViewState_def)

lemma nodeOrder_endBatch [simp]: "nodeOrder (endBatch c) = nodeOrder c"
  by (simp add: nodeOrder_def endBatch_def)

lemma elements_endBatch [simp]: "elements (endBatch c) = elements c"
  by (simp add: endBatch_def)

lemma applyToCytoscape_Some:
  "applyToCytoscape refuses collect apply uuid (Some c0) ds vs =
     (case collect (startBatch c0) of
        Inl e \<Rightarrow> Some (Some e, Some (endBatch (startBatch c0)))
      | Inr vsb \<Rightarrow>
          (case rebuild refuses uuid ds (startBatch c0) of
             None \<Rightarrow> None
           | Some (Inl (e, c)) \<Rightarrow> Some (Some e, Some (endBatch c))
           | Some (Inr c2) \<Rightarrow>
               (case apply vs c2 of
                  (Some e, c3) \<Rightarrow> Some (Some e, Some (endBatch c3))
                | (None, c3) \<Rightarrow>
                    Some (fst (apply vsb c3), Some (endBatch (snd (apply vsb c3)))))))"
  by (simp add: applyToCytoscape_def Let_def case_prod_unfold
      split: sum.splits option.splits prod.splits)

lemma applyToCytoscape_completes:
  assumes "applyToCytoscape refuses collect apply uuid (Some c0) ds vs = Some (None, Some c')"
  obtains vsb c2 c3 c4 where "collect (startBatch c0) = Inr vsb"
    "rebuild refuses uuid ds (startBatch c0) = Some (Inr c2)"
    "apply vs c2 = (None, c3)" "apply vsb c3 = (None, c4)" "c' = endBatch c4"
proof (cases "collect (startBatch c0)")
  case (Inl e)
  with assms show ?thesis by (simp add: applyToCytoscape_Some)
next
  case (Inr vsb)
  show ?thesis
  proof (cases "rebuild refuses uuid ds (startBatch c0)")
    case None
    with assms Inr show ?thesis by (simp add: applyToCytoscape_Some)
  next
    case (Some r)
    show ?thesis
    proof (cases r)
      case (Inl x)
      with assms Inr Some show ?thesis by (cases x) (simp add: applyToCytoscape_Some)
    next
      case c2: (Inr c2)
      obtain x c3 where a3: "apply vs c2 = (x, c3)" by (cases "apply vs c2")
      obtain y c4 where a4: "apply vsb c3 = (y, c4)" by (cases "apply vsb c3")
      from assms Inr Some c2 a3 have x: "x = None"
        by (cases x) (simp_all add: applyToCytoscape_Some)
      with assms Inr Some c2 a3 a4 have "y = None" "c' = endBatch c4"
        by (simp_all add: applyToCytoscape_Some)
      with Inr Some c2 a3 a4 x show ?thesis by (intro that) simp_all
    qed
  qed
qed

lemma applyToCytoscape_returns:
  assumes "nodesWithDepth ds = Some nwd"
  shows "\<exists>r c'. applyToCytoscape refuses collect apply uuid (Some c0) ds vs = Some (r, Some c')"
proof -
  from rebuild_returns [OF assms] obtain r where
    "rebuild refuses uuid ds (startBatch c0) = Some r" by blast
  then show ?thesis
    by (simp add: applyToCytoscape_Some split: sum.splits prod.splits option.splits)
qed


lemma completes_data:
  assumes "keepsElementData apply"
    and "applyToCytoscape refuses collect apply uuid (Some c0) ds vs = Some (None, Some c')"
  obtains c2 where "rebuild refuses uuid ds (startBatch c0) = Some (Inr c2)"
    "map data (elements c') = map data (elements c2)"
proof -
  from assms(2) obtain vsb c2 c3 c4 where
    r: "rebuild refuses uuid ds (startBatch c0) = Some (Inr c2)"
    and a: "apply vs c2 = (None, c3)" "apply vsb c3 = (None, c4)" "c' = endBatch c4"
    by (rule applyToCytoscape_completes)
  have "map data (elements c3) = map data (elements c2)"
    using assms(1) a(1) unfolding keepsElementData_def by (metis snd_conv)
  moreover have "map data (elements c4) = map data (elements c3)"
    using assms(1) a(2) unfolding keepsElementData_def by (metis snd_conv)
  ultimately have "map data (elements c') = map data (elements c2)"
    using a(3) by simp
  with r show ?thesis by (rule that)
qed






lemma refusesOnlyIllFormed_strictEngine: "refusesOnlyIllFormed strictEngine"
  by (simp add: refusesOnlyIllFormed_def strictEngine_def)


text \<open>
  Claim C2: after the synchronization has completed, the source and the target of every
  edge of the data set are identifiers of nodes of the live model, and an endpoint that
  is not an identifier of the data set is there as a placeholder, a node without parent
  whose label is the identifier itself.
\<close>

theorem edge_endpoints_exist:
  assumes "keepsElementData apply"
    and "applyToCytoscape refuses collect apply uuid (Some c0) ds vs = Some (None, Some c')"
    and "e \<in> set (edges ds)"
  shows "source e \<in> set (nodeOrder c') \<and> target e \<in> set (nodeOrder c') \<and>
         (source e \<notin> set (map fst (nodes ds)) \<longrightarrow> placeholder (source e) \<in> data ` set (elements c')) \<and>
         (target e \<notin> set (map fst (nodes ds)) \<longrightarrow> placeholder (target e) \<in> data ` set (elements c'))"
proof -
  from assms(1,2) obtain c2 where
    r: "rebuild refuses uuid ds (startBatch c0) = Some (Inr c2)"
    and d: "map data (elements c') = map data (elements c2)"
    by (rule completes_data)
  have o: "nodeOrder c' = nodeOrder c2" by (rule nodeOrder_cong [OF d])
  have i: "data ` set (elements c') = data ` set (elements c2)"
    using arg_cong [OF d, of set] by simp
  from rebuild_endpoints [OF r assms(3)] rebuild_placeholders [OF r]
  show ?thesis unfolding o i by blast
qed

theorem edge_endpoints_exist_witness:
  "keepsElementData applyViewState \<and>
   applyToCytoscape refusesNothing collectViewState applyViewState sampleUuid (Some emptyCy)
     unknownTarget emptyViewState = Some (None, Some unknownTargetResult) \<and>
   \<lparr>source = ''A'', target = ''Z'', edge_label = ''e''\<rparr> \<in> set (edges unknownTarget) \<and>
   ''Z'' \<notin> set (map fst (nodes unknownTarget)) \<and>
   nodeOrder unknownTargetResult = [''A'', ''Z''] \<and>
   placeholder ''Z'' \<in> data ` set (elements unknownTargetResult) \<and>
   data_label (placeholder ''Z'') = ''Z'' \<and> data_parent (placeholder ''Z'') = None"
proof -
  have run: "applyToCytoscape refusesNothing collectViewState applyViewState sampleUuid (Some emptyCy)
     unknownTarget emptyViewState = Some (None, Some unknownTargetResult)"
    by code_simp
  have e: "\<lparr>source = ''A'', target = ''Z'', edge_label = ''e''\<rparr> \<in> set (edges unknownTarget)"
    by (simp add: unknownTarget_def)
  have z: "''Z'' \<notin> set (map fst (nodes unknownTarget))"
    by (simp add: unknownTarget_def)
  have order: "nodeOrder unknownTargetResult = [''A'', ''Z'']"
    by code_simp
  from edge_endpoints_exist [OF keepsElementData_applyViewState run e]
  show ?thesis using keepsElementData_applyViewState run e z order
    by (simp add: placeholder_def)
qed

section \<open>The batch is ended\<close>

lemma batch_start_end [simp]:
  "batchCount (endBatch c) = batchCount c - 1" "endBatchCalls (endBatch c) = endBatchCalls c + 1"
  "batchCount (startBatch c) = batchCount c + 1" "endBatchCalls (startBatch c) = endBatchCalls c"
  by (simp_all add: endBatch_def startBatch_def)

lemma rebuild_batch_Inl:
  assumes "rebuild refuses uuid ds c = Some (Inl (e, c'))"
  shows "batchCount c' = batchCount c" "endBatchCalls c' = endBatchCalls c"
  using rebuild_batch [where refuses = refuses and uuid = uuid and ds = ds and c = c] assms
  by simp_all

lemma rebuild_batch_Inr:
  assumes "rebuild refuses uuid ds c = Some (Inr c')"
  shows "batchCount c' = batchCount c" "endBatchCalls c' = endBatchCalls c"
  using rebuild_batch [where refuses = refuses and uuid = uuid and ds = ds and c = c] assms
  by simp_all

text \<open>
  Claim C9: a call that has an engine starts the batch; whenever the call returns or
  throws, \<^verbatim>\<open>endBatch\<close> has been called exactly once and as many batches are open as
  before the call. This holds wherever the exception comes from: from collecting the
  view state, from an \<^verbatim>\<open>add\<close> that the engine refuses in the middle of the rebuild (the
  second part states this case by itself, with the engine as the refused \<^verbatim>\<open>add\<close> left
  it), or from applying a view state. The call does not return exactly when the view
  state was collected and the depth computation does not return, which does not happen
  for a data set without circular parent chain.
\<close>

theorem batch_always_ended:
  assumes "keepsBatch apply"
  shows "(\<forall>r c'. applyToCytoscape refuses collect apply uuid (Some c0) ds vs = Some (r, c') \<longrightarrow>
            (\<exists>c''. c' = Some c'' \<and> batchCount c'' = batchCount c0 \<and>
                   endBatchCalls c'' = endBatchCalls c0 + 1)) \<and>
         (\<forall>prior e c. collect (startBatch c0) = Inr prior \<and>
              rebuild refuses uuid ds (startBatch c0) = Some (Inl (e, c)) \<longrightarrow>
            applyToCytoscape refuses collect apply uuid (Some c0) ds vs =
              Some (Some e, Some (endBatch c)) \<and>
            batchCount (endBatch c) = batchCount c0 \<and>
            endBatchCalls (endBatch c) = endBatchCalls c0 + 1) \<and>
         (applyToCytoscape refuses collect apply uuid (Some c0) ds vs = None \<longleftrightarrow>
            (\<exists>prior. collect (startBatch c0) = Inr prior) \<and> nodesWithDepth ds = None) \<and>
         (acyclic (set (parentEdges (nodes ds))) \<longrightarrow>
            applyToCytoscape refuses collect apply uuid (Some c0) ds vs \<noteq> None)"
proof (intro conjI allI impI)
  fix r c'
  assume run: "applyToCytoscape refuses collect apply uuid (Some c0) ds vs = Some (r, c')"
  have kb: "batchCount (snd (apply v c)) = batchCount c"
    "endBatchCalls (snd (apply v c)) = endBatchCalls c" for v c
    using assms unfolding keepsBatch_def by simp_all
  show "\<exists>c''. c' = Some c'' \<and> batchCount c'' = batchCount c0 \<and>
      endBatchCalls c'' = endBatchCalls c0 + 1"
  proof (cases "collect (startBatch c0)")
    case (Inl e)
    with run have "c' = Some (endBatch (startBatch c0))"
      by (auto simp: applyToCytoscape_Some)
    then show ?thesis by simp
  next
    case (Inr vsb)
    show ?thesis
    proof (cases "rebuild refuses uuid ds (startBatch c0)")
      case None
      with run Inr show ?thesis by (simp add: applyToCytoscape_Some)
    next
      case (Some res)
      show ?thesis
      proof (cases res)
        case (Inl x)
        obtain e c where x: "x = (e, c)" by (cases x)
        from rebuild_batch_Inl [OF Some [unfolded Inl x]]
        have b: "batchCount c = batchCount c0 + 1" "endBatchCalls c = endBatchCalls c0" by simp_all
        from run Inr Some Inl x have "c' = Some (endBatch c)"
          by (auto simp: applyToCytoscape_Some)
        with b show ?thesis by simp
      next
        case c2: (Inr c2)
        from rebuild_batch_Inr [OF Some [unfolded c2]]
        have b2: "batchCount c2 = batchCount c0 + 1" "endBatchCalls c2 = endBatchCalls c0"
          by simp_all
        obtain x c3 where a3: "apply vs c2 = (x, c3)" by (cases "apply vs c2")
        have b3: "batchCount c3 = batchCount c0 + 1" "endBatchCalls c3 = endBatchCalls c0"
          using kb [of vs c2] a3 b2 by simp_all
        show ?thesis
        proof (cases x)
          case (Some e)
          with run Inr \<open>rebuild refuses uuid ds (startBatch c0) = Some res\<close> c2 a3
          have "c' = Some (endBatch c3)"
            by (auto simp: applyToCytoscape_Some)
          with b3 show ?thesis by simp
        next
          case None
          have b4: "batchCount (snd (apply vsb c3)) = batchCount c0 + 1"
            "endBatchCalls (snd (apply vsb c3)) = endBatchCalls c0"
            using kb [of vsb c3] b3 by simp_all
          from run Inr \<open>rebuild refuses uuid ds (startBatch c0) = Some res\<close> c2 a3 None
          have "c' = Some (endBatch (snd (apply vsb c3)))"
            by (auto simp: applyToCytoscape_Some)
          with b4 show ?thesis by simp
        qed
      qed
    qed
  qed
next
  fix prior e c
  assume a: "collect (startBatch c0) = Inr prior \<and>
      rebuild refuses uuid ds (startBatch c0) = Some (Inl (e, c))"
  then have r: "rebuild refuses uuid ds (startBatch c0) = Some (Inl (e, c))" by simp
  from a show "applyToCytoscape refuses collect apply uuid (Some c0) ds vs =
      Some (Some e, Some (endBatch c))"
    by (simp add: applyToCytoscape_Some)
  from rebuild_batch_Inl [OF r]
  show "batchCount (endBatch c) = batchCount c0" "endBatchCalls (endBatch c) = endBatchCalls c0 + 1"
    by simp_all
next
  show "applyToCytoscape refuses collect apply uuid (Some c0) ds vs = None \<longleftrightarrow>
      (\<exists>prior. collect (startBatch c0) = Inr prior) \<and> nodesWithDepth ds = None"
  proof (cases "collect (startBatch c0)")
    case (Inl e)
    then show ?thesis by (simp add: applyToCytoscape_Some)
  next
    case (Inr prior)
    show ?thesis
    proof (cases "rebuild refuses uuid ds (startBatch c0)")
      case None
      moreover from None have "nodesWithDepth ds = None" by (simp add: rebuild_None)
      ultimately show ?thesis using Inr by (simp add: applyToCytoscape_Some)
    next
      case (Some res)
      then have "nodesWithDepth ds \<noteq> None"
        using rebuild_None [of refuses uuid ds "startBatch c0"] by simp
      with Some Inr show ?thesis
        by (simp add: applyToCytoscape_Some split: sum.splits prod.splits option.splits)
    qed
  qed
next
  assume "acyclic (set (parentEdges (nodes ds)))"
  then obtain nwd where "nodesWithDepth ds = Some nwd"
    using nodesWithDepth_terminates by blast
  from applyToCytoscape_returns [OF this]
  show "applyToCytoscape refuses collect apply uuid (Some c0) ds vs \<noteq> None"
    by (metis option.distinct(1))
qed

theorem batch_always_ended_witness:
  "keepsBatch applyViewState \<and>
   (\<exists>prior. collectViewState (startBatch emptyCy) = Inr prior) \<and>
   rebuild refusesNothing sampleUuid emptyIdParent (startBatch emptyCy) =
     Some (Inl (Error ''Can not create element with invalid string ID'', refusedAt)) \<and>
   nodeOrder refusedAt = [''c''] \<and> batchCount refusedAt = 1 \<and>
   applyToCytoscape refusesNothing collectViewState applyViewState sampleUuid
     (Some emptyCy) emptyIdParent emptyViewState =
       Some (Some (Error ''Can not create element with invalid string ID''),
             Some (endBatch refusedAt)) \<and>
   batchCount (endBatch refusedAt) = batchCount emptyCy \<and>
   endBatchCalls (endBatch refusedAt) = endBatchCalls emptyCy + 1 \<and>
   keepsBatch failingApply \<and>
   acyclic (set (parentEdges (nodes parentChild))) \<and>
   applyToCytoscape refusesNothing collectViewState failingApply sampleUuid (Some emptyCy)
     parentChild emptyViewState =
       Some (Some (Error ''apply failed''),
             Some (parentChildResult\<lparr>batchCount := 0, endBatchCalls := 1\<rparr>)) \<and>
   nodesWithDepth selfParent = None \<and>
   applyToCytoscape refusesNothing collectViewState applyViewState sampleUuid (Some emptyCy)
     selfParent emptyViewState = None"
proof -
  have col: "\<exists>prior. collectViewState (startBatch emptyCy) = Inr prior"
    by (simp add: collectViewState_def)
  have reb: "rebuild refusesNothing sampleUuid emptyIdParent (startBatch emptyCy) =
     Some (Inl (Error ''Can not create element with invalid string ID'', refusedAt))"
    by code_simp
  have ra: "nodeOrder refusedAt = [''c'']" "batchCount refusedAt = 1"
    by (simp_all add: refusedAt_def nodeOrder_def isNode_def nodeData_def)
  have k: "keepsBatch failingApply"
    by (simp add: keepsBatch_def failingApply_def)
  have a: "acyclic (set (parentEdges (nodes parentChild)))"
    by (simp add: parentChild_def parentEdges_def acyclic_insert wf_acyclic)
  have run: "applyToCytoscape refusesNothing collectViewState failingApply sampleUuid (Some emptyCy)
     parentChild emptyViewState =
       Some (Some (Error ''apply failed''),
             Some (parentChildResult\<lparr>batchCount := 0, endBatchCalls := 1\<rparr>))"
    by code_simp
  note t = batch_always_ended [OF keepsBatch_applyViewState,
      of refusesNothing collectViewState sampleUuid emptyCy emptyIdParent emptyViewState]
  from col obtain prior where p: "collectViewState (startBatch emptyCy) = Inr prior"
    by blast
  note th = t [THEN conjunct2, THEN conjunct1, THEN spec, THEN spec, THEN spec, THEN mp,
      OF conjI [OF p reb]]
  have sp: "nodesWithDepth selfParent = None" by (rule nodesWithDepth_selfParent)
  note u = batch_always_ended [OF keepsBatch_applyViewState,
      of refusesNothing collectViewState sampleUuid emptyCy selfParent emptyViewState]
  from u [THEN conjunct2, THEN conjunct2, THEN conjunct1] col sp
  have sr: "applyToCytoscape refusesNothing collectViewState applyViewState sampleUuid (Some emptyCy)
     selfParent emptyViewState = None"
    by blast
  from keepsBatch_applyViewState col reb ra th k a run sp sr show ?thesis by (intro conjI) simp_all
qed

section \<open>Placeholders\<close>

lemma add_placeholder_elements:
  assumes "add refuses (placeholder i) c = Inr c'"
  shows "elements c' = elements c @
           [\<lparr>data = placeholder i, position = (0, 0), selected = False, collapsed = False\<rparr>]"
proof -
  from assms obtain d' where
    d': "elements c' = elements c @
       [\<lparr>data = d', position = (0, 0), selected = False, collapsed = False\<rparr>]"
    "data_parent (placeholder i) = None \<longrightarrow> d' = placeholder i"
    by (rule add_Inr_elements)
  have "data_parent (placeholder i) = None" by (simp add: placeholder_def)
  with d' show ?thesis by simp
qed

text \<open>
  Claim C10: a call of \<open>ensureNodeExists\<close> with an identifier that is in \<open>nodeIds\<close>
  changes nothing; after a call that has returned, a second call with the same
  identifier changes nothing; a call with an identifier that is not in \<open>nodeIds\<close>
  hands the placeholder to the engine, which has no parent and the identifier as label,
  and either the engine appends exactly this element and the identifier is registered,
  or the engine refuses it and the call throws, which ends the run. \<open>nodeIds\<close> never
  loses an identifier during the node loop and the edge loop, so that only the first
  call for an identifier adds an element. After a completed run the node identifiers of
  the live model are pairwise distinct, and every node that is not a node of the data
  set is a placeholder.
\<close>

theorem placeholder_synthesis_idempotent:
  "(i \<in> fst s \<longrightarrow> ensureNodeExists refuses i s = Inr s) \<and>
   (\<forall>s'. ensureNodeExists refuses i s = Inr s' \<longrightarrow>
      ensureNodeExists refuses i s' = Inr s' \<and> i \<in> fst s' \<and> fst s \<subseteq> fst s') \<and>
   (i \<notin> fst s \<longrightarrow>
      (\<forall>c'. add refuses (placeholder i) (snd s) = Inr c' \<longrightarrow>
         ensureNodeExists refuses i s = Inr (insert i (fst s), c') \<and>
         elements c' =
           elements (snd s) @
             [\<lparr>data = placeholder i, position = (0, 0), selected = False, collapsed = False\<rparr>]) \<and>
      (\<forall>e. add refuses (placeholder i) (snd s) = Inl e \<longrightarrow>
         ensureNodeExists refuses i s = Inl (e, snd s))) \<and>
   data_parent (placeholder i) = None \<and> data_label (placeholder i) = i \<and>
   (\<forall>s'. addNodes refuses l s = Inr s' \<longrightarrow> fst s \<subseteq> fst s') \<and>
   (\<forall>s'. addEdges refuses uuid k es s = Inr s' \<longrightarrow> fst s \<subseteq> fst s') \<and>
   (keepsElementData apply \<and> distinct (map fst (nodes ds)) \<and>
    applyToCytoscape refuses collect apply uuid (Some c0) ds vs = Some (None, Some c') \<longrightarrow>
      distinct (nodeOrder c') \<and>
      (\<forall>e \<in> set (elements c').
         isNode e \<and> data_id (data e) \<notin> set (map fst (nodes ds)) \<longrightarrow>
           data e = placeholder (data_id (data e))))"
proof (intro conjI impI allI)
  show "ensureNodeExists refuses i s = Inr s" if "i \<in> fst s"
    using that by (cases s) (simp add: ensure_in)
  show "ensureNodeExists refuses i s' = Inr s'" "i \<in> fst s'" "fst s \<subseteq> fst s'"
    if "ensureNodeExists refuses i s = Inr s'" for s'
  proof -
    from ensure_Inr(1) [OF that] show "i \<in> fst s'" "fst s \<subseteq> fst s'" by auto
    then show "ensureNodeExists refuses i s' = Inr s'"
      by (cases s') (simp add: ensure_in)
  qed
  show "ensureNodeExists refuses i s = Inr (insert i (fst s), c')"
    if "i \<notin> fst s" "add refuses (placeholder i) (snd s) = Inr c'" for c'
    using that by (cases s) (simp add: ensure_notin)
  show "elements c' =
      elements (snd s) @
        [\<lparr>data = placeholder i, position = (0, 0), selected = False, collapsed = False\<rparr>]"
    if "add refuses (placeholder i) (snd s) = Inr c'" for c'
    using that by (rule add_placeholder_elements)
  show "ensureNodeExists refuses i s = Inl (e, snd s)"
    if "i \<notin> fst s" "add refuses (placeholder i) (snd s) = Inl e" for e
    using that by (cases s) (simp add: ensure_notin)
  show "data_parent (placeholder i) = None" "data_label (placeholder i) = i"
    by (simp_all add: placeholder_def)
  show "fst s \<subseteq> fst s'" if "addNodes refuses l s = Inr s'" for s'
    using that by (rule addNodes_mono)
  show "fst s \<subseteq> fst s'" if "addEdges refuses uuid k es s = Inr s'" for s'
    using that by (rule addEdges_mono)
next
  assume a: "keepsElementData apply \<and> distinct (map fst (nodes ds)) \<and>
    applyToCytoscape refuses collect apply uuid (Some c0) ds vs = Some (None, Some c')"
  then have a1: "keepsElementData apply" and a2: "distinct (map fst (nodes ds))"
    and a3: "applyToCytoscape refuses collect apply uuid (Some c0) ds vs = Some (None, Some c')"
    by simp_all
  from a1 a3 obtain c2 where r: "rebuild refuses uuid ds (startBatch c0) = Some (Inr c2)"
    and d: "map data (elements c') = map data (elements c2)"
    by (rule completes_data)
  have o: "nodeOrder c' = nodeOrder c2" by (rule nodeOrder_cong [OF d])
  show "distinct (nodeOrder c')"
    unfolding o by (rule rebuild_distinct [OF r a2])
  have i: "data ` set (elements c') = data ` set (elements c2)"
    using arg_cong [OF d, of set] by simp
  have "\<forall>d \<in> data ` set (elements c').
      isNodeData d \<and> data_id d \<notin> set (map fst (nodes ds)) \<longrightarrow> d = placeholder (data_id d)"
    unfolding i using rebuild_placeholders [OF r] by blast
  then show "\<forall>e \<in> set (elements c').
         isNode e \<and> data_id (data e) \<notin> set (map fst (nodes ds)) \<longrightarrow>
           data e = placeholder (data_id (data e))"
    by (simp add: isNode_def isNodeData_def)
qed

theorem placeholder_synthesis_idempotent_witness:
  "''A'' \<in> fst knownA \<and> ensureNodeExists refusesNothing ''A'' knownA = Inr knownA \<and>
   ''Z'' \<notin> fst knownA \<and>
   ensureNodeExists refusesNothing ''Z'' knownA =
     Inr ({''Z'', ''A''},
          emptyCy\<lparr>elements :=
            [\<lparr>data = placeholder ''Z'', position = (0, 0), selected = False, collapsed = False\<rparr>]\<rparr>) \<and>
   [] \<notin> fst knownA \<and>
   ensureNodeExists refusesNothing [] knownA =
     Inl (Error ''Can not create element with invalid string ID'', emptyCy) \<and>
   keepsElementData applyViewState \<and> distinct (map fst (nodes unknownTarget)) \<and>
   applyToCytoscape refusesNothing collectViewState applyViewState sampleUuid (Some emptyCy)
     unknownTarget emptyViewState = Some (None, Some unknownTargetResult) \<and>
   distinct (nodeOrder unknownTargetResult) \<and>
   \<lparr>data = placeholder ''Z'', position = (0, 0), selected = False, collapsed = False\<rparr>
     \<in> set (elements unknownTargetResult) \<and>
   isNode \<lparr>data = placeholder ''Z'', position = (0, 0), selected = False, collapsed = False\<rparr> \<and>
   ''Z'' \<notin> set (map fst (nodes unknownTarget))"
proof -
  have run: "applyToCytoscape refusesNothing collectViewState applyViewState sampleUuid (Some emptyCy)
     unknownTarget emptyViewState = Some (None, Some unknownTargetResult)"
    by code_simp
  have keys: "distinct (map fst (nodes unknownTarget))" "''Z'' \<notin> set (map fst (nodes unknownTarget))"
    by (simp_all add: unknownTarget_def)
  have el: "\<lparr>data = placeholder ''Z'', position = (0, 0), selected = False, collapsed = False\<rparr>
     \<in> set (elements unknownTargetResult)"
    "isNode \<lparr>data = placeholder ''Z'', position = (0, 0), selected = False, collapsed = False\<rparr>"
    by (simp_all add: unknownTargetResult_def isNode_def placeholder_def)
  have kn: "''A'' \<in> fst knownA" "''Z'' \<notin> fst knownA" "[] \<notin> fst knownA" "snd knownA = emptyCy"
    "fst knownA = {''A''}"
    by (simp_all add: knownA_def)
  have az: "add refusesNothing (placeholder ''Z'') (snd knownA) =
      Inr (emptyCy\<lparr>elements :=
            [\<lparr>data = placeholder ''Z'', position = (0, 0), selected = False, collapsed = False\<rparr>]\<rparr>)"
    by (simp add: kn add_def refusesNothing_def placeholder_def emptyCy_def Let_def)
  have ae: "add refusesNothing (placeholder []) (snd knownA) =
      Inl (Error ''Can not create element with invalid string ID'')"
    by (simp add: add_empty_id)
  note t1 = placeholder_synthesis_idempotent [of "''A''" knownA refusesNothing "[]" sampleUuid 0 "[]"
      applyViewState unknownTarget collectViewState emptyCy emptyViewState unknownTargetResult]
  note t2 = placeholder_synthesis_idempotent [of "''Z''" knownA refusesNothing "[]" sampleUuid 0 "[]"
      applyViewState unknownTarget collectViewState emptyCy emptyViewState unknownTargetResult]
  note t3 = placeholder_synthesis_idempotent [of "[]" knownA refusesNothing "[]" sampleUuid 0 "[]"
      applyViewState unknownTarget collectViewState emptyCy emptyViewState unknownTargetResult]
  from t1 [THEN conjunct1] kn(1) have r1: "ensureNodeExists refusesNothing ''A'' knownA = Inr knownA"
    by blast
  from t2 [THEN conjunct2, THEN conjunct2, THEN conjunct1, THEN mp, OF kn(2), THEN conjunct1,
      THEN spec, THEN mp, OF az, THEN conjunct1]
  have r2: "ensureNodeExists refusesNothing ''Z'' knownA =
     Inr ({''Z'', ''A''},
          emptyCy\<lparr>elements :=
            [\<lparr>data = placeholder ''Z'', position = (0, 0), selected = False, collapsed = False\<rparr>]\<rparr>)"
    by (simp only: kn)
  from t3 [THEN conjunct2, THEN conjunct2, THEN conjunct1, THEN mp, OF kn(3), THEN conjunct2,
      THEN spec, THEN mp, OF ae]
  have r3: "ensureNodeExists refusesNothing [] knownA =
     Inl (Error ''Can not create element with invalid string ID'', emptyCy)"
    by (simp only: kn)
  from t2 keepsElementData_applyViewState keys(1) run
  have r4: "distinct (nodeOrder unknownTargetResult)" by blast
  from kn(1,2,3) r1 r2 r3 keepsElementData_applyViewState keys run r4 el
  show ?thesis by (intro conjI)
qed

section \<open>Reapplying the view state\<close>

lemma applyToElement_keeps [simp]:
  "data (applyToElement v e) = data e" "isNode (applyToElement v e) = isNode e"
  by (simp_all add: applyToElement_def isNode_def)

lemma position_applyToElement:
  "position (applyToElement v e) =
     (if isNode e
      then (case map_of (positions v) (data_id (data e)) of None \<Rightarrow> position e | Some p \<Rightarrow> p)
      else position e)"
  by (simp add: applyToElement_def)

lemma applyToElement_twice:
  "position (applyToElement prior (applyToElement loaded e)) =
     (if isNode e
      then (case map_of (positions prior) (data_id (data e)) of
              Some p \<Rightarrow> p
            | None \<Rightarrow> (case map_of (positions loaded) (data_id (data e)) of
                         Some p \<Rightarrow> p
                       | None \<Rightarrow> position e))
      else position e)"
  by (simp add: position_applyToElement split: option.splits)

text \<open>
  Claim C5: when the rebuild has returned, the call completes with the model that
  results from the rebuilt one by applying first the view state that was passed in and
  then the view state collected before the elements were removed. A node of the live
  model then has the position that the collected state gives for its identifier; if
  that state has none, the position that the passed state gives; and else the position
  with which it was created. The rebuild returns when the depth computation returns, the
  engine accepts every acceptable element, no identifier of the data set is empty, and
  the generated edge identifiers are non-empty, pairwise different and not used in the
  data set.
\<close>

theorem view_state_reapplied_in_order:
  "(\<forall>c2. rebuild refuses uuid ds (startBatch c0) = Some (Inr c2) \<longrightarrow>
      (\<exists>prior c'.
           collectViewState (startBatch c0) = Inr prior \<and>
           positions prior = [(data_id (data e), position e). e \<leftarrow> elements c0, isNode e] \<and>
           c' = endBatch (snd (applyViewState prior (snd (applyViewState loaded c2)))) \<and>
           applyToCytoscape refuses collectViewState applyViewState uuid (Some c0) ds loaded =
             Some (None, Some c') \<and>
           (\<forall>e \<in> set (elements c'). isNode e \<longrightarrow>
              position e =
                (case map_of (positions prior) (data_id (data e)) of
                   Some p \<Rightarrow> p
                 | None \<Rightarrow> (case map_of (positions loaded) (data_id (data e)) of
                              Some p \<Rightarrow> p
                            | None \<Rightarrow> (0, 0)))))) \<and>
   (nodesWithDepth ds \<noteq> None \<and> refusesOnlyIllFormed refuses \<and> noEmptyIds uuid ds \<and>
    freshEdgeIds uuid ds \<and> distinct (map fst (nodes ds)) \<longrightarrow>
      (\<exists>c2. rebuild refuses uuid ds (startBatch c0) = Some (Inr c2)))"
proof (intro conjI allI impI)
  fix c2
  assume c2: "rebuild refuses uuid ds (startBatch c0) = Some (Inr c2)"
  obtain prior where prior: "collectViewState (startBatch c0) = Inr prior"
    by (simp add: collectViewState_def)
  have pp: "positions prior = [(data_id (data e), position e). e \<leftarrow> elements c0, isNode e]"
    using prior by (auto simp: collectViewState_def startBatch_def)
  define c' where "c' = endBatch (snd (applyViewState prior (snd (applyViewState loaded c2))))"
  have run: "applyToCytoscape refuses collectViewState applyViewState uuid (Some c0) ds loaded =
      Some (None, Some c')"
    unfolding c'_def
    by (simp add: applyToCytoscape_Some prior c2 applyViewState_def)
  have els: "elements c' = map (applyToElement prior \<circ> applyToElement loaded) (elements c2)"
    unfolding c'_def by (simp add: applyViewState_def)
  have pos: "position e =
      (case map_of (positions prior) (data_id (data e)) of
         Some p \<Rightarrow> p
       | None \<Rightarrow> (case map_of (positions loaded) (data_id (data e)) of
                    Some p \<Rightarrow> p
                  | None \<Rightarrow> (0, 0)))"
    if e: "e \<in> set (elements c')" "isNode e" for e
  proof -
    from e(1) obtain e2 where e2: "e2 \<in> set (elements c2)"
      "e = applyToElement prior (applyToElement loaded e2)"
      unfolding els by auto
    have "position e2 = (0, 0)" using rebuild_positions [OF c2] e2(1) by blast
    moreover have "isNode e2" using e(2) e2(2) by simp
    moreover have "data_id (data e) = data_id (data e2)" using e2(2) by simp
    ultimately show ?thesis unfolding e2(2) applyToElement_twice
      by (simp split: option.splits)
  qed
  show "\<exists>prior c'.
           collectViewState (startBatch c0) = Inr prior \<and>
           positions prior = [(data_id (data e), position e). e \<leftarrow> elements c0, isNode e] \<and>
           c' = endBatch (snd (applyViewState prior (snd (applyViewState loaded c2)))) \<and>
           applyToCytoscape refuses collectViewState applyViewState uuid (Some c0) ds loaded =
             Some (None, Some c') \<and>
           (\<forall>e \<in> set (elements c'). isNode e \<longrightarrow>
              position e =
                (case map_of (positions prior) (data_id (data e)) of
                   Some p \<Rightarrow> p
                 | None \<Rightarrow> (case map_of (positions loaded) (data_id (data e)) of
                              Some p \<Rightarrow> p
                            | None \<Rightarrow> (0, 0))))"
  proof (intro exI conjI)
    show "collectViewState (startBatch c0) = Inr prior" by (rule prior)
    show "positions prior = [(data_id (data e), position e). e \<leftarrow> elements c0, isNode e]"
      by (rule pp)
    show "c' = endBatch (snd (applyViewState prior (snd (applyViewState loaded c2))))"
      by (rule c'_def)
    show "applyToCytoscape refuses collectViewState applyViewState uuid (Some c0) ds loaded =
        Some (None, Some c')" by (rule run)
    show "\<forall>e \<in> set (elements c'). isNode e \<longrightarrow>
        position e =
          (case map_of (positions prior) (data_id (data e)) of
             Some p \<Rightarrow> p
           | None \<Rightarrow> (case map_of (positions loaded) (data_id (data e)) of
                        Some p \<Rightarrow> p
                      | None \<Rightarrow> (0, 0)))"
      using pos by blast
  qed
next
  assume a: "nodesWithDepth ds \<noteq> None \<and> refusesOnlyIllFormed refuses \<and> noEmptyIds uuid ds \<and>
    freshEdgeIds uuid ds \<and> distinct (map fst (nodes ds))"
  then obtain nwd where "nodesWithDepth ds = Some nwd" by auto
  moreover from a have "refusesOnlyIllFormed refuses" "noEmptyIds uuid ds"
    "freshEdgeIds uuid ds" "distinct (map fst (nodes ds))" by simp_all
  ultimately show "\<exists>c2. rebuild refuses uuid ds (startBatch c0) = Some (Inr c2)"
    by (rule rebuild_accepts)
qed

theorem view_state_reapplied_in_order_witness:
  "nodesWithDepth parentChild \<noteq> None \<and> refusesOnlyIllFormed strictEngine \<and>
   noEmptyIds sampleUuid parentChild \<and> freshEdgeIds sampleUuid parentChild \<and>
   distinct (map fst (nodes parentChild)) \<and>
   (\<exists>c2. rebuild strictEngine sampleUuid parentChild (startBatch movedCy) = Some (Inr c2)) \<and>
   applyToCytoscape strictEngine collectViewState applyViewState sampleUuid (Some movedCy)
     parentChild loadedViewState = Some (None, Some movedResult) \<and>
   map_of (positions loadedViewState) ''A'' = Some (1, 1) \<and>
   map_of [(data_id (data e), position e). e \<leftarrow> elements movedCy, isNode e] ''A'' = Some (5, 5) \<and>
   \<lparr>data = nodeData ''A'' \<lparr>label = ''A'', parent = None\<rparr>,
     position = (5, 5), selected = False, collapsed = False\<rparr> \<in> set (elements movedResult) \<and>
   isNode \<lparr>data = nodeData ''A'' \<lparr>label = ''A'', parent = None\<rparr>,
     position = (5, 5), selected = False, collapsed = False\<rparr>"
proof -
  have d: "nodesWithDepth parentChild \<noteq> None"
    by code_simp
  have ne: "noEmptyIds sampleUuid parentChild"
    by (simp add: noEmptyIds_def parentChild_def sampleUuid_def)
  have fr: "freshEdgeIds sampleUuid parentChild"
    by (simp add: freshEdgeIds_def referenced_def parentChild_def sampleUuid_def)
  have keys: "distinct (map fst (nodes parentChild))"
    by code_simp
  have run: "applyToCytoscape strictEngine collectViewState applyViewState sampleUuid (Some movedCy)
     parentChild loadedViewState = Some (None, Some movedResult)"
    by code_simp
  have l: "map_of (positions loadedViewState) ''A'' = Some (1, 1)"
    by (simp add: loadedViewState_def)
  have p: "map_of [(data_id (data e), position e). e \<leftarrow> elements movedCy, isNode e] ''A'' = Some (5, 5)"
    by (simp add: movedCy_def isNode_def nodeData_def)
  have e: "\<lparr>data = nodeData ''A'' \<lparr>label = ''A'', parent = None\<rparr>,
     position = (5, 5), selected = False, collapsed = False\<rparr> \<in> set (elements movedResult)"
    "isNode \<lparr>data = nodeData ''A'' \<lparr>label = ''A'', parent = None\<rparr>,
     position = (5, 5), selected = False, collapsed = False\<rparr>"
    by (simp_all add: movedResult_def isNode_def nodeData_def)
  note t = view_state_reapplied_in_order [of strictEngine sampleUuid parentChild movedCy
      loadedViewState]
  from t [THEN conjunct2] d refusesOnlyIllFormed_strictEngine ne fr keys
  have c2: "\<exists>c2. rebuild strictEngine sampleUuid parentChild (startBatch movedCy) = Some (Inr c2)"
    by blast
  then obtain c2 where r: "rebuild strictEngine sampleUuid parentChild (startBatch movedCy) = Some (Inr c2)"
    by blast
  from t [THEN conjunct1, THEN spec, THEN mp, OF r]
  have "\<exists>c'. applyToCytoscape strictEngine collectViewState applyViewState sampleUuid (Some movedCy)
     parentChild loadedViewState = Some (None, Some c')"
    by blast
  from d refusesOnlyIllFormed_strictEngine ne fr keys c2 run l p e show ?thesis by (intro conjI)
qed

section \<open>The forest built from a flat list\<close>

lemma map_fst_modify [simp]: "map fst (modify k f st) = map fst st"
  by (induction st) (auto simp: modify_def)

lemma map_of_modify:
  "map_of (modify k f st) k' = (if k' = k then map_option f (map_of st k) else map_of st k')"
  by (induction st) (auto simp: modify_def)

lemma newTreeNodes_keys:
  "distinct (map fst (newTreeNodes getId items)) \<and>
   set (map fst (newTreeNodes getId items)) = getId ` set items"
proof -
  define fresh where "fresh = (\<lambda>it :: 'a. \<lparr>item = it, children = [], tn_parent = None, depth = - 1\<rparr>)"
  have "distinct (map fst (fold (\<lambda>it m. AList.update (getId it) (fresh it) m) items m0)) \<and>
      set (map fst (fold (\<lambda>it m. AList.update (getId it) (fresh it) m) items m0)) =
        set (map fst m0) \<union> getId ` set items"
    if "distinct (map fst m0)" for m0 :: "'a treeStore"
    using that
  proof (induction items arbitrary: m0)
    case Nil
    then show ?case by simp
  next
    case (Cons it items)
    have d: "distinct (map fst (AList.update (getId it) (fresh it) m0))"
      using Cons.prems by (rule distinct_update)
    have s: "set (map fst (AList.update (getId it) (fresh it) m0)) = insert (getId it) (set (map fst m0))"
      by (auto simp: update_keys)
    from Cons.IH [OF d] show ?case unfolding s by auto
  qed
  from this [of "[]"] show ?thesis
    unfolding newTreeNodes_def fresh_def by simp
qed

lemma newTreeNodes_fresh:
  assumes "map_of (newTreeNodes getId items) k = Some n"
  shows "children n = [] \<and> tn_parent n = None \<and> depth n = - 1 \<and>
         item n \<in> set items \<and> getId (item n) = k"
proof -
  define fresh where "fresh = (\<lambda>it :: 'a. \<lparr>item = it, children = [], tn_parent = None, depth = - 1\<rparr>)"
  define good where "good = (\<lambda>(k :: string) (n :: 'a treeNode). children n = [] \<and> tn_parent n = None \<and> depth n = - 1 \<and>
         item n \<in> set items \<and> getId (item n) = k)"
  have "\<forall>k n. map_of (fold (\<lambda>it m. AList.update (getId it) (fresh it) m) its m0) k = Some n \<longrightarrow> good k n"
    if "\<forall>k n. map_of m0 k = Some n \<longrightarrow> good k n" "set its \<subseteq> set items" for m0 :: "'a treeStore" and its
    using that
  proof (induction its arbitrary: m0)
    case Nil
    then show ?case by simp
  next
    case (Cons it its)
    have "good (getId it) (fresh it)"
      using Cons.prems(2) unfolding good_def fresh_def by simp
    with Cons.prems(1) have "\<forall>k n. map_of (AList.update (getId it) (fresh it) m0) k = Some n \<longrightarrow> good k n"
      by (auto simp: update_conv')
    from Cons.IH [OF this] Cons.prems(2) show ?case by simp
  qed
  from this [of "[]" items] assms show ?thesis
    unfolding newTreeNodes_def fresh_def good_def by simp
qed

lemma wire_update:
  fixes st0 :: "'a treeStore"
  assumes w: "wired getParent st0 D st"
    and k: "map_of st0 k = Some n0" "k \<notin> D"
  defines "r \<equiv> resolveParent getParent st0 (item n0)"
  shows "map fst (wire getParent k (item n0) st) = map fst st0"
    and "map_of (wire getParent k (item n0) st) k' =
      map_option (\<lambda>n. if r = Some k' then (if k' = k then n\<lparr>tn_parent := r\<rparr> else n)
                                          \<lparr>children := children n @ [k]\<rparr>
                       else (if k' = k then n\<lparr>tn_parent := r\<rparr> else n)) (map_of st k')"
proof -
  have keys: "map fst st = map fst st0" using w by (simp add: wired_def)
  have dom: "map_of st p = None \<longleftrightarrow> p \<notin> set (map fst st0)" for p
    using keys by (metis map_of_eq_None_iff set_map)
  from w k(1) obtain n where n: "map_of st k = Some n" "tn_parent n = None"
    unfolding wired_def using k(2) by fastforce
  have "map fst (wire getParent k (item n0) st) = map fst st0 \<and>
    map_of (wire getParent k (item n0) st) k' =
      map_option (\<lambda>n. if r = Some k' then (if k' = k then n\<lparr>tn_parent := r\<rparr> else n)
                                          \<lparr>children := children n @ [k]\<rparr>
                       else (if k' = k then n\<lparr>tn_parent := r\<rparr> else n)) (map_of st k')"
  proof (cases "getParent (item n0)")
    case None
    then have e: "wire getParent k (item n0) st = st" by (simp add: wire_def)
    have r: "r = None" using None by (simp add: r_def resolveParent_def)
    have "n\<lparr>tn_parent := None\<rparr> = n" using n(2) by simp
    then show ?thesis unfolding e r using keys n(1)
      by (cases "map_of st k'") auto
  next
    case (Some pid)
    show ?thesis
    proof (cases "map_of st pid")
      case None
      then have e: "wire getParent k (item n0) st = modify k (\<lambda>n. n\<lparr>tn_parent := None\<rparr>) st"
        using Some by (simp add: wire_def)
      have r: "r = None"
        using Some None dom by (simp add: r_def resolveParent_def)
      show ?thesis unfolding e r using keys
        by (cases "map_of st k'") (auto simp: map_of_modify)
    next
      case (Some p)
      then have e: "wire getParent k (item n0) st =
          modify pid (\<lambda>n. n\<lparr>children := children n @ [k]\<rparr>)
            (modify k (\<lambda>n. n\<lparr>tn_parent := Some pid\<rparr>) st)"
        using \<open>getParent (item n0) = Some pid\<close> by (simp add: wire_def)
      have r: "r = Some pid"
        using \<open>getParent (item n0) = Some pid\<close> Some dom [of pid]
        by (auto simp: r_def resolveParent_def)
      show ?thesis unfolding e r using keys
        by (cases "map_of st k'") (auto simp: map_of_modify)
    qed
  qed
  then show "map fst (wire getParent k (item n0) st) = map fst st0"
    and "map_of (wire getParent k (item n0) st) k' =
      map_option (\<lambda>n. if r = Some k' then (if k' = k then n\<lparr>tn_parent := r\<rparr> else n)
                                          \<lparr>children := children n @ [k]\<rparr>
                       else (if k' = k then n\<lparr>tn_parent := r\<rparr> else n)) (map_of st k')"
    by simp_all
qed

lemma wire_step:
  fixes st0 :: "'a treeStore"
  assumes w: "wired getParent st0 D st"
    and k: "map_of st0 k = Some n0" "k \<notin> D"
  shows "wired getParent st0 (insert k D) (wire getParent k (item n0) st)"
  unfolding wired_def
proof (intro conjI allI impI)
  show "map fst (wire getParent k (item n0) st) = map fst st0"
    by (rule wire_update(1) [OF w k])
next
  fix k' n0' assume a: "map_of st0 k' = Some n0'"
  define r where "r = resolveParent getParent st0 (item n0)"
  from w a obtain n where n: "map_of st k' = Some n" "item n = item n0'" "depth n = depth n0'"
    "tn_parent n = (if k' \<in> D then resolveParent getParent st0 (item n0') else None)"
    "set (children n) = {c \<in> D. \<exists>nc. map_of st0 c = Some nc \<and>
                                    resolveParent getParent st0 (item nc) = Some k'}"
    unfolding wired_def by blast
  define n' where "n' = (if r = Some k' then (if k' = k then n\<lparr>tn_parent := r\<rparr> else n)
                                          \<lparr>children := children n @ [k]\<rparr>
                       else (if k' = k then n\<lparr>tn_parent := r\<rparr> else n))"
  have m: "map_of (wire getParent k (item n0) st) k' = Some n'"
    unfolding wire_update(2) [OF w k] n(1) n'_def r_def by simp
  have i: "item n' = item n0'" "depth n' = depth n0'"
    using n(2,3) by (simp_all add: n'_def)
  have t: "tn_parent n' = (if k' \<in> insert k D then resolveParent getParent st0 (item n0') else None)"
  proof (cases "k' = k")
    case True
    with a k(1) have "n0' = n0" by simp
    with True show ?thesis by (simp add: n'_def r_def)
  next
    case False
    with n(4) show ?thesis by (simp add: n'_def)
  qed
  have c: "set (children n') = {c \<in> insert k D. \<exists>nc. map_of st0 c = Some nc \<and>
                                    resolveParent getParent st0 (item nc) = Some k'}"
  proof (cases "r = Some k'")
    case True
    have "set (children n') = insert k (set (children n))"
      using True by (simp add: n'_def)
    also have "\<dots> = {c \<in> insert k D. \<exists>nc. map_of st0 c = Some nc \<and>
                                    resolveParent getParent st0 (item nc) = Some k'}"
      unfolding n(5) using True k(1) unfolding r_def by auto
    finally show ?thesis .
  next
    case False
    have "set (children n') = set (children n)"
      using False by (simp add: n'_def)
    also have "\<dots> = {c \<in> insert k D. \<exists>nc. map_of st0 c = Some nc \<and>
                                    resolveParent getParent st0 (item nc) = Some k'}"
      unfolding n(5) using False k(1) unfolding r_def by auto
    finally show ?thesis .
  qed
  from m i t c show "\<exists>n. map_of (wire getParent k (item n0) st) k' = Some n \<and> item n = item n0' \<and>
       depth n = depth n0' \<and>
       tn_parent n = (if k' \<in> insert k D then resolveParent getParent st0 (item n0') else None) \<and>
       set (children n) = {c \<in> insert k D. \<exists>nc. map_of st0 c = Some nc \<and>
                                    resolveParent getParent st0 (item nc) = Some k'}"
    by blast
qed

lemma wired_initial:
  fixes st0 :: "'a treeStore"
  assumes "\<forall>k n. map_of st0 k = Some n \<longrightarrow> tn_parent n = None \<and> children n = []"
  shows "wired getParent st0 {} st0"
  using assms unfolding wired_def by simp

lemma wireAll_wired:
  fixes st0 :: "'a treeStore"
  assumes d: "distinct (map fst st0)"
    and f: "\<forall>k n. map_of st0 k = Some n \<longrightarrow> tn_parent n = None \<and> children n = []"
  shows "wired getParent st0 (set (map fst st0)) (wireAll getParent st0)"
proof -
  have "wired getParent st0 (set (map fst st0)) (fold (\<lambda>(k, n). wire getParent k (item n)) es st)"
    if "st0 = pre @ es" "wired getParent st0 (set (map fst pre)) st" for pre es st
    using that
  proof (induction es arbitrary: pre st)
    case Nil
    then show ?case by simp
  next
    case (Cons e es)
    obtain k n0 where e: "e = (k, n0)" by (cases e)
    have "(k, n0) \<in> set st0" using Cons.prems(1) e by simp
    with d have m: "map_of st0 k = Some n0" by simp
    have nk: "k \<notin> set (map fst pre)"
      using d unfolding Cons.prems(1) e by auto
    have w: "wired getParent st0 (insert k (set (map fst pre))) (wire getParent k (item n0) st)"
      by (rule wire_step [OF Cons.prems(2) m nk])
    have "wired getParent st0 (set (map fst st0))
        (fold (\<lambda>(k, n). wire getParent k (item n)) es (wire getParent k (item n0) st))"
    proof (rule Cons.IH [of "pre @ [e]"])
      show "st0 = (pre @ [e]) @ es" using Cons.prems(1) by simp
      show "wired getParent st0 (set (map fst (pre @ [e]))) (wire getParent k (item n0) st)"
        using w e by simp
    qed
    then show ?case by (simp add: e)
  qed
  from this [of "[]" st0 st0] wired_initial [OF f] show ?thesis
    unfolding wireAll_def by simp
qed

lemma ancestorsLoop_prefix:
  assumes "ancestorsLoop f p arr = Some res"
  shows "\<exists>c. res = arr @ c \<and> (\<forall>arr'. ancestorsLoop f p arr' = Some (arr' @ c))"
proof (rule ancestorsLoop.raw_induct
    [where P = "\<lambda>f p arr res. \<exists>c. res = arr @ c \<and> (\<forall>arr'. ancestorsLoop f p arr' = Some (arr' @ c))",
     OF _ assms], goal_cases)
  case (1 g f' p' arr' res')
  show ?case
  proof (cases p')
    case None
    with 1(2) have "res' = arr' @ []" by simp
    moreover have "\<forall>a. ancestorsLoop f' p' a = Some (a @ [])"
      using None by (subst ancestorsLoop.simps) simp
    ultimately show ?thesis by blast
  next
    case (Some k)
    with 1(2) have "g f' (f' k) (arr' @ [k]) = Some res'" by simp
    from 1(1) [OF this] obtain c where c: "res' = (arr' @ [k]) @ c"
      "\<forall>a. ancestorsLoop f' (f' k) a = Some (a @ c)" by blast
    have "res' = arr' @ (k # c)" using c(1) by simp
    moreover have "\<forall>a. ancestorsLoop f' p' a = Some (a @ (k # c))"
    proof
      fix a
      have "ancestorsLoop f' p' a = ancestorsLoop f' (f' k) (a @ [k])"
        using Some by (subst ancestorsLoop.simps) simp
      also have "\<dots> = Some ((a @ [k]) @ c)" using c(2) by blast
      finally show "ancestorsLoop f' p' a = Some (a @ (k # c))" by simp
    qed
    ultimately show ?thesis by blast
  qed
qed

lemma ancestorsLoop_terminates:
  assumes fin: "finite R" and ac: "acyclic R"
    and sub: "\<And>k p. f k = Some p \<Longrightarrow> (k, p) \<in> R"
  shows "\<exists>res. ancestorsLoop f p arr = Some res"
proof -
  have wf: "wf (R\<inverse>)" using fin ac by (rule finite_acyclic_wf_converse)
  have key: "\<forall>arr. \<exists>res. ancestorsLoop f (Some k) arr = Some res" for k
  proof (induction k rule: wf_induct_rule [OF wf])
    case (1 k)
    show ?case
    proof
      fix arr
      have step: "ancestorsLoop f (Some k) arr = ancestorsLoop f (f k) (arr @ [k])"
        by (subst ancestorsLoop.simps) simp
      show "\<exists>res. ancestorsLoop f (Some k) arr = Some res"
      proof (cases "f k")
        case None
        then have "ancestorsLoop f (f k) (arr @ [k]) = Some (arr @ [k])"
          by (subst ancestorsLoop.simps) simp
        with step show ?thesis by simp
      next
        case (Some p)
        then have "(p, k) \<in> R\<inverse>" using sub by simp
        from 1 [OF this] Some step show ?thesis by simp
      qed
    qed
  qed
  show ?thesis
  proof (cases p)
    case None
    then show ?thesis by (subst ancestorsLoop.simps) simp
  next
    case (Some k)
    with key show ?thesis by simp
  qed
qed

lemma getDepth_facts:
  assumes fin: "finite R" and ac: "acyclic R"
    and sub: "\<And>k p. parentRef st k = Some p \<Longrightarrow> (k, p) \<in> R"
  shows "\<exists>d. getDepth st k = Some d \<and> (d = 0) = (parentRef st k = None) \<and>
           (\<forall>p. parentRef st k = Some p \<longrightarrow> getDepth st p = Some (d - 1) \<and> 0 < d)"
proof (cases "parentRef st k")
  case None
  then have "ancestorsLoop (parentRef st) (parentRef st k) [] = Some []"
    by (subst ancestorsLoop.simps) simp
  with None show ?thesis by (simp add: getDepth_def getAncestors_def)
next
  case (Some p)
  obtain c where c: "ancestorsLoop (parentRef st) (parentRef st p) [] = Some c"
    using ancestorsLoop_terminates [OF fin ac sub] by blast
  from ancestorsLoop_prefix [OF c] have "ancestorsLoop (parentRef st) (parentRef st p) [p] = Some ([p] @ c)"
    by auto
  then have "ancestorsLoop (parentRef st) (parentRef st k) [] = Some (p # c)"
    unfolding Some by (subst ancestorsLoop.simps) simp
  with c Some show ?thesis by (simp add: getDepth_def getAncestors_def)
qed

lemma parentRef_modify_depth [simp]:
  "parentRef (modify k (\<lambda>n. n\<lparr>depth := d\<rparr>) st) = parentRef st"
  by (auto simp: fun_eq_iff parentRef_def map_of_modify split: option.splits)

lemma getDepth_modify_depth [simp]:
  "getDepth (modify k (\<lambda>n. n\<lparr>depth := d\<rparr>) st) = getDepth st"
  by (simp add: fun_eq_iff getDepth_def getAncestors_def)

lemma setDepths_result:
  assumes "\<forall>k. \<exists>d. getDepth st k = Some d"
  shows "\<exists>st'. setDepths ks st = Some st' \<and> map fst st' = map fst st \<and>
           (\<forall>k. map_of st' k =
              map_option (\<lambda>n. if k \<in> set ks then n\<lparr>depth := the (getDepth st k)\<rparr> else n)
                (map_of st k))"
  using assms
proof (induction ks arbitrary: st)
  case Nil
  then show ?case by (simp add: option.map_ident)
next
  case (Cons k ks)
  from Cons.prems obtain d where d: "getDepth st k = Some d" by blast
  define st1 where "st1 = modify k (\<lambda>n. n\<lparr>depth := d\<rparr>) st"
  have g: "getDepth st1 = getDepth st" unfolding st1_def by simp
  have "\<forall>k. \<exists>d. getDepth st1 k = Some d" unfolding g using Cons.prems .
  from Cons.IH [OF this] obtain st' where st': "setDepths ks st1 = Some st'"
    "map fst st' = map fst st1"
    "\<forall>k. map_of st' k =
        map_option (\<lambda>n. if k \<in> set ks then n\<lparr>depth := the (getDepth st1 k)\<rparr> else n)
          (map_of st1 k)"
    by blast
  have "setDepths (k # ks) st = Some st'" using d st'(1) by (simp add: st1_def)
  moreover have "map fst st' = map fst st" using st'(2) by (simp add: st1_def)
  moreover have "map_of st' k' =
        map_option (\<lambda>n. if k' \<in> set (k # ks) then n\<lparr>depth := the (getDepth st k')\<rparr> else n)
          (map_of st k')" for k'
    using st'(3) d unfolding g st1_def
    by (cases "map_of st k'") (auto simp: map_of_modify)
  ultimately show ?case by blast
qed

lemma wiredD:
  fixes st0 :: "'a treeStore"
  assumes "wired getParent st0 D st" "map_of st0 k = Some n0"
  shows "\<exists>n. map_of st k = Some n \<and> item n = item n0 \<and> depth n = depth n0 \<and>
             tn_parent n = (if k \<in> D then resolveParent getParent st0 (item n0) else None) \<and>
             set (children n) = {c \<in> D. \<exists>nc. map_of st0 c = Some nc \<and>
                                          resolveParent getParent st0 (item nc) = Some k}"
  using assms unfolding wired_def by blast

lemma wired_edges:
  fixes st0 :: "'a treeStore"
  assumes w: "wired getParent st0 (set (map fst st0)) st"
    and it: "\<forall>k n. map_of st0 k = Some n \<longrightarrow> item n \<in> set items \<and> getId (item n) = k"
    and p: "parentRef st k = Some p"
  shows "(k, p) \<in> set (itemParentEdges getId getParent items)"
proof -
  from p obtain n where n: "map_of st k = Some n" "tn_parent n = Some p"
    by (auto simp: parentRef_def split: option.splits)
  have keys: "map fst st = map fst st0" using w by (simp add: wired_def)
  have "map_of st0 k \<noteq> None"
    using n(1) keys by (metis map_of_eq_None_iff option.distinct(1) set_map)
  then obtain n0 where n0: "map_of st0 k = Some n0" by blast
  with w n have r: "resolveParent getParent st0 (item n0) = Some p"
    unfolding wired_def by (fastforce split: if_splits)
  then have g: "getParent (item n0) = Some p"
    by (auto simp: resolveParent_def split: option.splits if_splits)
  from it n0 have "item n0 \<in> set items" "getId (item n0) = k" by blast+
  with g show ?thesis by (force simp: itemParentEdges_def)
qed

text \<open>
  Claim C6, as stated, fails for an item that names itself as parent: following its
  parent references never ends, and \<open>toTree\<close> does not return.
\<close>

theorem buildForest_roots_counterexample:
  "toTree selfParentItems item_id item_parent = None"
proof -
  define w where "w = wireAll item_parent (newTreeNodes item_id selfParentItems)"
  have p: "parentRef w ''1'' = Some ''1''"
    unfolding w_def by code_simp
  have loop: "ancestorsLoop (parentRef w) (Some ''1'') arr = None" for arr
  proof (cases "ancestorsLoop (parentRef w) (Some ''1'') arr")
    case None
    then show ?thesis .
  next
    case (Some res)
    have "\<not> (parentRef w = parentRef w \<and> Some ''1'' = Some ''1'')"
    proof (rule ancestorsLoop.raw_induct
        [where P = "\<lambda>f q arr res. \<not> (f = parentRef w \<and> q = Some ''1'')", OF _ Some], goal_cases)
      case (1 g f' q' arr' res')
      show ?case
      proof
        assume a: "f' = parentRef w \<and> q' = Some ''1''"
        with 1(2) p have "g f' (Some ''1'') (arr' @ [''1'']) = Some res'" by simp
        from 1(1) [OF this] a show False by simp
      qed
    qed
    then show ?thesis by simp
  qed
  have "getDepth w ''1'' = None"
    by (simp add: getDepth_def getAncestors_def p loop)
  moreover have "map fst w = [''1'']"
    unfolding w_def by code_simp
  ultimately show ?thesis
    by (simp add: toTree_def w_def [symmetric] Let_def)
qed

text \<open>
  Claim C6, amended: for every list of items whose parent identifiers form no cycle,
  \<open>toTree\<close> returns. Every identifier has one wrapper node. The parent reference of a
  node is its item's parent identifier if that identifier resolves through the lookup,
  and none otherwise; a node has depth 0 exactly if it has no parent reference; the
  result consists of exactly the nodes of depth 0; and a node with a parent reference
  is a child of that parent and one level deeper. The three items of the scenario yield
  the roots 1 and 3, with 2 as the child of 1 at depth 1.
\<close>

theorem buildForest_roots:
  "(acyclic (set (itemParentEdges getId getParent items)) \<longrightarrow>
      (\<exists>roots st. toTree items getId getParent = Some (roots, st) \<and>
         distinct (map fst st) \<and> set (map fst st) = getId ` set items \<and>
         roots = map fst (filter (\<lambda>(k, n). depth n = 0) st) \<and>
         (\<forall>(k, n) \<in> set st.
            item n \<in> set items \<and> getId (item n) = k \<and>
            tn_parent n = resolveParent getParent st (item n) \<and>
            (depth n = 0) = (tn_parent n = None) \<and>
            (k \<in> set roots) = (tn_parent n = None) \<and>
            (\<forall>pid p. tn_parent n = Some pid \<and> map_of st pid = Some p \<longrightarrow>
               k \<in> set (children p) \<and> depth n = depth p + 1)))) \<and>
   toTree exampleItems item_id item_parent = Some ([''1'', ''3''], exampleForest)"
proof (intro conjI impI)
  show "toTree exampleItems item_id item_parent = Some ([''1'', ''3''], exampleForest)"
    by code_simp
next
  assume ac: "acyclic (set (itemParentEdges getId getParent items))"
  define st0 where "st0 = newTreeNodes getId items"
  define w where "w = wireAll getParent st0"
  define R where "R = set (itemParentEdges getId getParent items)"
  have d0: "distinct (map fst st0)" and k0: "set (map fst st0) = getId ` set items"
    unfolding st0_def using newTreeNodes_keys by blast+
  have fresh: "\<forall>k n. map_of st0 k = Some n \<longrightarrow> tn_parent n = None \<and> children n = []"
    unfolding st0_def using newTreeNodes_fresh by blast
  have it0: "\<forall>k n. map_of st0 k = Some n \<longrightarrow> item n \<in> set items \<and> getId (item n) = k"
    unfolding st0_def using newTreeNodes_fresh by blast
  have ww: "wired getParent st0 (set (map fst st0)) w"
    unfolding w_def by (rule wireAll_wired [OF d0 fresh])
  have kw: "map fst w = map fst st0" using ww by (simp add: wired_def)
  have sub: "(k, p) \<in> R" if "parentRef w k = Some p" for k p
    unfolding R_def by (rule wired_edges [OF ww it0 that])
  have fin: "finite R" unfolding R_def by simp
  have acR: "acyclic R" unfolding R_def by (rule ac)
  have gd: "\<exists>d. getDepth w k = Some d \<and> (d = 0) = (parentRef w k = None) \<and>
           (\<forall>p. parentRef w k = Some p \<longrightarrow> getDepth w p = Some (d - 1) \<and> 0 < d)" for k
    by (rule getDepth_facts [OF fin acR sub])
  have tot: "\<forall>k. \<exists>d. getDepth w k = Some d" using gd by blast
  from setDepths_result [OF tot, of "map fst w"] obtain st where
    st: "setDepths (map fst w) w = Some st" "map fst st = map fst w"
    "\<forall>k. map_of st k =
        map_option (\<lambda>n. if k \<in> set (map fst w) then n\<lparr>depth := the (getDepth w k)\<rparr> else n)
          (map_of w k)"
    by blast
  define roots where "roots = map fst (filter (\<lambda>(k, n). depth n = 0) st)"
  have res: "toTree items getId getParent = Some (roots, st)"
    unfolding toTree_def roots_def using st(1) by (simp add: w_def st0_def Let_def)
  have ks: "map fst st = map fst st0" using st(2) kw by simp
  have dst: "distinct (map fst st)" using ks d0 by simp
  have rp: "resolveParent getParent st = resolveParent getParent st0"
    unfolding fun_eq_iff resolveParent_def ks by simp
  have entry: "\<exists>n0 nw. map_of st0 k = Some n0 \<and> map_of w k = Some nw \<and>
      n = nw\<lparr>depth := the (getDepth w k)\<rparr> \<and> item nw = item n0 \<and>
      tn_parent nw = resolveParent getParent st0 (item n0) \<and>
      set (children nw) = {c \<in> set (map fst st0). \<exists>nc. map_of st0 c = Some nc \<and>
                                    resolveParent getParent st0 (item nc) = Some k}"
    if "map_of st k = Some n" for k n
  proof -
    have "k \<in> set (map fst st)" using that by (metis map_of_eq_None_iff option.distinct(1) set_map)
    then have kin: "k \<in> set (map fst st0)" "k \<in> set (map fst w)" using ks kw by simp_all
    then have "map_of st0 k \<noteq> None" by (metis map_of_eq_None_iff set_map)
    then obtain n0 where n0: "map_of st0 k = Some n0" by blast
    from wiredD [OF ww n0] obtain nw where nw0: "map_of w k = Some nw" "item nw = item n0"
      "tn_parent nw = (if k \<in> set (map fst st0) then resolveParent getParent st0 (item n0) else None)"
      "set (children nw) = {c \<in> set (map fst st0). \<exists>nc. map_of st0 c = Some nc \<and>
                                    resolveParent getParent st0 (item nc) = Some k}"
      by blast
    have nw3: "tn_parent nw = resolveParent getParent st0 (item n0)"
      using nw0(3) kin(1) by simp
    note nw = nw0(1,2) nw3 nw0(4)
    have "n = nw\<lparr>depth := the (getDepth w k)\<rparr>"
      using that st(3) nw(1) kin(2) by simp
    with n0 nw show ?thesis by blast
  qed
  have props: "item n \<in> set items \<and> getId (item n) = k \<and>
            tn_parent n = resolveParent getParent st (item n) \<and>
            (depth n = 0) = (tn_parent n = None) \<and>
            (k \<in> set roots) = (tn_parent n = None) \<and>
            (\<forall>pid p. tn_parent n = Some pid \<and> map_of st pid = Some p \<longrightarrow>
               k \<in> set (children p) \<and> depth n = depth p + 1)"
    if kn: "(k, n) \<in> set st" for k n
  proof -
    have m: "map_of st k = Some n" using kn dst by simp
    from entry [OF m] obtain n0 nw where e: "map_of st0 k = Some n0" "map_of w k = Some nw"
      "n = nw\<lparr>depth := the (getDepth w k)\<rparr>" "item nw = item n0"
      "tn_parent nw = resolveParent getParent st0 (item n0)" by blast
    have pr: "parentRef w k = tn_parent n" using e(2,3) by (simp add: parentRef_def)
    obtain d where d0: "getDepth w k = Some d \<and> (d = 0) = (parentRef w k = None) \<and>
      (\<forall>p. parentRef w k = Some p \<longrightarrow> getDepth w p = Some (d - 1) \<and> 0 < d)"
      using gd [of k] by (rule exE)
    note d = conjunct1 [OF d0] conjunct1 [OF conjunct2 [OF d0]] conjunct2 [OF conjunct2 [OF d0]]
    have dn: "depth n = d" using e(3) d(1) by simp
    have a: "item n \<in> set items \<and> getId (item n) = k"
      using it0 e(1,3,4) by simp
    have b: "tn_parent n = resolveParent getParent st (item n)"
      unfolding rp using e(3,4,5) by simp
    have c: "(depth n = 0) = (tn_parent n = None)" using dn d(2) pr by simp
    have "(k \<in> set roots) = (depth n = 0)"
    proof
      assume "k \<in> set roots"
      then obtain n' where "(k, n') \<in> set st" "depth n' = 0" unfolding roots_def by auto
      moreover from this(1) dst have "map_of st k = Some n'" by simp
      ultimately show "depth n = 0" using m by simp
    next
      assume "depth n = 0"
      with kn show "k \<in> set roots" unfolding roots_def by force
    qed
    with c have r: "(k \<in> set roots) = (tn_parent n = None)" by simp
    have ch: "k \<in> set (children p) \<and> depth n = depth p + 1"
      if t: "tn_parent n = Some pid" "map_of st pid = Some p" for pid p
    proof -
      from entry [OF t(2)] obtain p0 pw where pe: "map_of st0 pid = Some p0" "map_of w pid = Some pw"
        "p = pw\<lparr>depth := the (getDepth w pid)\<rparr>"
        "set (children pw) = {c \<in> set (map fst st0). \<exists>nc. map_of st0 c = Some nc \<and>
                                    resolveParent getParent st0 (item nc) = Some pid}" by blast
      have "resolveParent getParent st0 (item n0) = Some pid" using t(1) e(3,5) by simp
      moreover have "k \<in> set (map fst st0)" using e(1) by (metis map_of_eq_None_iff option.distinct(1) set_map)
      ultimately have "k \<in> set (children pw)" unfolding pe(4) using e(1) by blast
      then have k1: "k \<in> set (children p)" using pe(3) by simp
      from d(3) t(1) pr have "getDepth w pid = Some (d - 1)" "0 < d" by simp_all
      then have "depth p = d - 1" "0 < d" using pe(3) by simp_all
      with dn have "depth n = depth p + 1" by simp
      with k1 show ?thesis by simp
    qed
    from a b c r ch show ?thesis by blast
  qed
  show "\<exists>roots st. toTree items getId getParent = Some (roots, st) \<and>
         distinct (map fst st) \<and> set (map fst st) = getId ` set items \<and>
         roots = map fst (filter (\<lambda>(k, n). depth n = 0) st) \<and>
         (\<forall>(k, n) \<in> set st.
            item n \<in> set items \<and> getId (item n) = k \<and>
            tn_parent n = resolveParent getParent st (item n) \<and>
            (depth n = 0) = (tn_parent n = None) \<and>
            (k \<in> set roots) = (tn_parent n = None) \<and>
            (\<forall>pid p. tn_parent n = Some pid \<and> map_of st pid = Some p \<longrightarrow>
               k \<in> set (children p) \<and> depth n = depth p + 1))"
  proof (intro exI conjI)
    show "toTree items getId getParent = Some (roots, st)" by (rule res)
    show "distinct (map fst st)" by (rule dst)
    show "set (map fst st) = getId ` set items" using ks k0 by simp
    show "roots = map fst (filter (\<lambda>(k, n). depth n = 0) st)" by (rule roots_def)
    show "\<forall>(k, n) \<in> set st.
            item n \<in> set items \<and> getId (item n) = k \<and>
            tn_parent n = resolveParent getParent st (item n) \<and>
            (depth n = 0) = (tn_parent n = None) \<and>
            (k \<in> set roots) = (tn_parent n = None) \<and>
            (\<forall>pid p. tn_parent n = Some pid \<and> map_of st pid = Some p \<longrightarrow>
               k \<in> set (children p) \<and> depth n = depth p + 1)"
      using props by blast
  qed
qed

theorem buildForest_roots_witness:
  "acyclic (set (itemParentEdges item_id item_parent exampleItems)) \<and>
   toTree exampleItems item_id item_parent = Some ([''1'', ''3''], exampleForest) \<and>
   (''2'', \<lparr>item = \<lparr>item_id = ''2'', item_parent = Some ''1''\<rparr>, children = [],
            tn_parent = Some ''1'', depth = 1\<rparr>) \<in> set exampleForest \<and>
   map_of exampleForest ''1'' =
     Some \<lparr>item = \<lparr>item_id = ''1'', item_parent = None\<rparr>, children = [''2''],
           tn_parent = None, depth = 0\<rparr> \<and>
   resolveParent item_parent exampleForest \<lparr>item_id = ''3'', item_parent = Some ''9''\<rparr> = None \<and>
   ''2'' \<in> set (children \<lparr>item = \<lparr>item_id = ''1'', item_parent = None\<rparr>, children = [''2''],
           tn_parent = None, depth = 0\<rparr>) \<and>
   depth \<lparr>item = \<lparr>item_id = ''2'', item_parent = Some ''1''\<rparr>, children = [],
            tn_parent = Some ''1'', depth = 1\<rparr> =
     depth \<lparr>item = \<lparr>item_id = ''1'', item_parent = None\<rparr>, children = [''2''],
           tn_parent = None, depth = 0\<rparr> + 1"
proof -
  have a: "acyclic (set (itemParentEdges item_id item_parent exampleItems))"
    by (simp add: itemParentEdges_def exampleItems_def acyclic_insert rtrancl_insert wf_acyclic)
  have r: "toTree exampleItems item_id item_parent = Some ([''1'', ''3''], exampleForest)"
    by code_simp
  have e: "(''2'', \<lparr>item = \<lparr>item_id = ''2'', item_parent = Some ''1''\<rparr>, children = [],
            tn_parent = Some ''1'', depth = 1\<rparr>) \<in> set exampleForest"
    "map_of exampleForest ''1'' =
     Some \<lparr>item = \<lparr>item_id = ''1'', item_parent = None\<rparr>, children = [''2''],
           tn_parent = None, depth = 0\<rparr>"
    "resolveParent item_parent exampleForest \<lparr>item_id = ''3'', item_parent = Some ''9''\<rparr> = None"
    by (simp_all add: exampleForest_def resolveParent_def)
  from buildForest_roots [of item_id item_parent exampleItems]
  have "acyclic (set (itemParentEdges item_id item_parent exampleItems)) \<longrightarrow>
      (\<exists>roots st. toTree exampleItems item_id item_parent = Some (roots, st) \<and>
         distinct (map fst st) \<and> set (map fst st) = item_id ` set exampleItems \<and>
         roots = map fst (filter (\<lambda>(k, n). depth n = 0) st) \<and>
         (\<forall>(k, n) \<in> set st.
            item n \<in> set exampleItems \<and> item_id (item n) = k \<and>
            tn_parent n = resolveParent item_parent st (item n) \<and>
            (depth n = 0) = (tn_parent n = None) \<and>
            (k \<in> set roots) = (tn_parent n = None) \<and>
            (\<forall>pid p. tn_parent n = Some pid \<and> map_of st pid = Some p \<longrightarrow>
               k \<in> set (children p) \<and> depth n = depth p + 1)))"
    by (rule conjunct1)
  from mp [OF this a] obtain roots st where
    full: "toTree exampleItems item_id item_parent = Some (roots, st) \<and>
         distinct (map fst st) \<and> set (map fst st) = item_id ` set exampleItems \<and>
         roots = map fst (filter (\<lambda>(k, n). depth n = 0) st) \<and>
         (\<forall>(k, n) \<in> set st.
            item n \<in> set exampleItems \<and> item_id (item n) = k \<and>
            tn_parent n = resolveParent item_parent st (item n) \<and>
            (depth n = 0) = (tn_parent n = None) \<and>
            (k \<in> set roots) = (tn_parent n = None) \<and>
            (\<forall>pid p. tn_parent n = Some pid \<and> map_of st pid = Some p \<longrightarrow>
               k \<in> set (children p) \<and> depth n = depth p + 1))"
    by (elim exE)
  note big = full [THEN conjunct2, THEN conjunct2, THEN conjunct2, THEN conjunct2]
  from conjunct1 [OF full] r have eqs: "roots = [''1'', ''3'']" "st = exampleForest" by simp_all
  define n1 where "n1 = \<lparr>item = \<lparr>item_id = ''1'', item_parent = None\<rparr>, children = [''2''],
           tn_parent = None, depth = 0\<rparr>"
  define n2 where "n2 = \<lparr>item = \<lparr>item_id = ''2'', item_parent = Some ''1''\<rparr>, children = [],
            tn_parent = Some ''1'', depth = 1\<rparr>"
  have "(''2'', n2) \<in> set st" using e(1) by (simp only: eqs n2_def)
  note inst = bspec [OF big this, unfolded prod.case]
  note inst [THEN conjunct2, THEN conjunct2, THEN conjunct2, THEN conjunct2, THEN conjunct2]
  moreover have "tn_parent n2 = Some ''1'' \<and> map_of st ''1'' = Some n1"
    using e(2) by (simp add: eqs n1_def n2_def)
  ultimately have q: "''2'' \<in> set (children n1) \<and> depth n2 = depth n1 + 1"
    by blast
  show ?thesis
    using a r e q unfolding n1_def n2_def by (intro conjI) simp_all
qed

end
